theory Spec2Isabelle
  imports Main "HOL-Library.Multiset" "HOL-Library.Word"
begin

section \<open>The job pool as an interleaving of atomic steps\<close>

text \<open>
  \<^verbatim>\<open>thread_utils::JobPool\<close> (\<^verbatim>\<open>include/job_pool.h\<close>, \<^verbatim>\<open>src/job_pool.cc\<close>) is a set of
  worker threads that share a queue of jobs, a mutex, a condition variable, three atomics
  and an exception slot.  The embedding is a labelled transition system: every thread has a
  program counter that names the source line it is about to execute, and one step of the
  system is one step of one thread.  A step is one access to shared memory; the atomics are
  accessed with the default sequentially consistent order, so interleaving is their
  semantics.

  \<^verbatim>\<open>last_exception_\<close> is a plain \<^verbatim>\<open>std::exception_ptr\<close>, not an atomic.  A worker assigns
  to it in line 68, after the scope of its lock has ended in line 63;
  \<^verbatim>\<open>WaitForAllJobs\<close> reads it in line 31 and again in line 32, under a mutex that the
  writer does not hold.  Nothing orders these accesses.  The assignment is not one step:
  a worker begins it and, in a later step, completes it, and the two reads are two steps.
  A state in which two assignments are in progress at once, or in which a read is due
  while an assignment is in progress, is a data race (\<open>slot_race\<close> below), and from
  there the C++ standard gives the program no behaviour.  The model goes on from such
  a state as if the assignment that completes last had been alone; the invariants proved
  below do not depend on the value of the slot.
\<close>

subsection \<open>Jobs, exceptions, thread identities\<close>

type_synonym exn = nat

text \<open>
  A job is a \<^verbatim>\<open>std::function<void()>\<close>.  The pool sees nothing of it but whether the call
  \<^verbatim>\<open>job()\<close> returns or throws; \<open>jid\<close> tells jobs apart in the logs, \<open>throws\<close> is the
  exception the call ends with, if any.
\<close>

datatype job = Job (jid: nat) (throws: "exn option")

datatype tid = Worker nat | Caller nat

datatype outcome = Returned | Raised exn

subsection \<open>Program counters\<close>

text \<open>
  The program counter of a worker, by the lines of \<^verbatim>\<open>JobPool::WorkerThread\<close> in
  \<^verbatim>\<open>src/job_pool.cc\<close>.  \<^verbatim>\<open>condition_.wait(lock, pred)\<close> is
  \<^verbatim>\<open>while (!pred()) wait(lock);\<close>: the predicate is tested at \<open>W_wait\<close>; at
  \<open>W_preblock\<close> it has been found false and the worker, still holding the mutex, is
  about to release it and block, which \<^verbatim>\<open>wait(lock)\<close> does in one step; \<open>W_blocked\<close>
  and \<open>W_relock\<close> are the inside of \<^verbatim>\<open>wait(lock)\<close>.
\<close>

datatype wpc =
    W_loop          \<comment> \<open>line 51, \<^verbatim>\<open>while (!stop_flag_.load())\<close>\<close>
  | W_lock          \<comment> \<open>line 54, \<^verbatim>\<open>unique_lock lock(queue_mutex_)\<close>\<close>
  | W_wait          \<comment> \<open>lines 55-57, the predicate of the wait, mutex held\<close>
  | W_preblock      \<comment> \<open>predicate false, about to call \<^verbatim>\<open>wait(lock)\<close>, mutex held\<close>
  | W_blocked       \<comment> \<open>in \<^verbatim>\<open>wait\<close>, mutex released\<close>
  | W_relock        \<comment> \<open>woken, taking the mutex again\<close>
  | W_chk_stop      \<comment> \<open>line 58\<close>
  | W_chk_paused    \<comment> \<open>line 59\<close>
  | W_chk_empty     \<comment> \<open>line 60\<close>
  | W_pop           \<comment> \<open>lines 61-62\<close>
  | W_unlock job    \<comment> \<open>line 63, end of the scope of \<^verbatim>\<open>lock\<close>\<close>
  | W_inc job       \<comment> \<open>line 64, \<^verbatim>\<open>active_jobs_++\<close>\<close>
  | W_call job      \<comment> \<open>line 66, about to call \<^verbatim>\<open>job()\<close>\<close>
  | W_run job       \<comment> \<open>line 66, inside \<^verbatim>\<open>job()\<close>\<close>
  | W_catch exn     \<comment> \<open>line 68, in the handler, about to assign to \<^verbatim>\<open>last_exception_\<close>\<close>
  | W_store exn     \<comment> \<open>line 68, the assignment to \<^verbatim>\<open>last_exception_\<close> in progress\<close>
  | W_dec           \<comment> \<open>line 71, \<^verbatim>\<open>active_jobs_--\<close>\<close>
  | W_notify        \<comment> \<open>line 72, \<^verbatim>\<open>condition_.notify_all()\<close>\<close>
  | W_exited        \<comment> \<open>returned from \<^verbatim>\<open>WorkerThread\<close>\<close>

text \<open>
  The program counter of a thread that uses the pool: idle, or inside one of the public
  member functions (\<open>A\<close>: \<^verbatim>\<open>AddJob\<close>, \<open>B\<close>: \<^verbatim>\<open>AddJobs\<close>, \<open>J\<close>: \<^verbatim>\<open>WaitForAllJobs\<close>,
  \<open>P\<close>: \<^verbatim>\<open>Pause\<close>, \<open>R\<close>: \<^verbatim>\<open>Resume\<close>, \<open>D\<close>: the destructor).  \<open>J_preblock\<close> is to
  \<open>J_wait\<close> what \<open>W_preblock\<close> is to \<open>W_wait\<close>; \<open>J_chk_exc\<close> is the test of line 31
  and \<open>J_rethrow\<close> the second read of the slot, in line 32.
\<close>

datatype cpc =
    C_idle
  | A_lock job | A_push job | A_unlock | A_notify
  | B_lock "job list" | B_push "job list" | B_unlock | B_notify
  | J_lock | J_wait | J_preblock | J_blocked | J_relock
  | J_chk_exc | J_rethrow | J_unlock outcome
  | P_store
  | R_store | R_notify
  | D_lock | D_store | D_unlock | D_notify | D_join nat | C_destroyed

datatype op = AddJob job | AddJobs "job list" | WaitForAllJobs | Pause | Resume | Destroy

subsection \<open>The state\<close>

text \<open>
  The private members of the class under their names, the program counters of the threads,
  and history variables that no step reads: the jobs in the order they were put into the
  queue, taken out of it, called and finished, the exceptions in the order they were stored
  in \<^verbatim>\<open>last_exception_\<close>, and how each call of \<^verbatim>\<open>WaitForAllJobs\<close> ended.

  \<open>condition\<close> holds the threads blocked on \<^verbatim>\<open>condition_\<close>; \<open>queue_mutex\<close> the owner
  of \<^verbatim>\<open>queue_mutex_\<close>.  \<open>active_jobs\<close> is a \<^verbatim>\<open>std::atomic<size_t>\<close>, a natural number
  below \<open>2 ^ 64\<close> whose increment and decrement wrap around.
\<close>

record pool =
  threads :: "wpc list"
  jobs :: "job list"
  queue_mutex :: "tid option"
  condition :: "tid list"
  stop_flag :: bool
  active_jobs :: nat
  paused :: bool
  last_exception :: "exn option"
  callers :: "cpc list"
  submitted :: "job list"
  dequeued :: "job list"
  started :: "job list"
  finished :: "job list"
  recorded :: "exn list"
  outcomes :: "(nat \<times> outcome) list"

definition size_t_incr :: "nat \<Rightarrow> nat" where
  "size_t_incr n = (n + 1) mod 2 ^ 64"

definition size_t_decr :: "nat \<Rightarrow> nat" where
  "size_t_decr n = (n + 2 ^ 64 - 1) mod 2 ^ 64"

text \<open>
  The constructor (lines 7-11) starts \<open>k\<close> threads in \<^verbatim>\<open>WorkerThread\<close>; the other members
  have their default initialisers from the header.  \<open>m\<close> is the number of threads of the
  program that use the pool.
\<close>

definition JobPool :: "nat \<Rightarrow> nat \<Rightarrow> pool" where
  "JobPool k m =
     \<lparr>threads = replicate k W_loop, jobs = [], queue_mutex = None, condition = [],
      stop_flag = False, active_jobs = 0, paused = False, last_exception = None,
      callers = replicate m C_idle, submitted = [], dequeued = [], started = [],
      finished = [], recorded = [], outcomes = []\<rparr>"

definition GetThreadCount :: "pool \<Rightarrow> nat" where
  "GetThreadCount s = length (threads s)"

definition GetActiveJobCount :: "pool \<Rightarrow> nat" where
  "GetActiveJobCount s = active_jobs s"

definition w_at :: "nat \<Rightarrow> wpc \<Rightarrow> pool \<Rightarrow> pool" where
  "w_at i pc s = s\<lparr>threads := (threads s)[i := pc]\<rparr>"

definition c_at :: "nat \<Rightarrow> cpc \<Rightarrow> pool \<Rightarrow> pool" where
  "c_at c pc s = s\<lparr>callers := (callers s)[c := pc]\<rparr>"

subsection \<open>One step of a worker\<close>

text \<open>
  \<^verbatim>\<open>JobPool::WorkerThread\<close>, lines 50-74.  Taking the mutex is a step that exists only
  when the mutex is free.  A \<^verbatim>\<open>return\<close> or \<^verbatim>\<open>continue\<close> inside the block releases the
  mutex (the destructor of \<^verbatim>\<open>lock\<close>) in the step of the test that leads to it.  The
  test of the predicate of the wait and the call of \<^verbatim>\<open>wait(lock)\<close> are two steps, so
  that a store and a notification that take no mutex (\<^verbatim>\<open>Resume\<close>, lines 46-47) can
  fall between them.  A blocked worker can move again once a notification has taken it
  out of \<open>condition\<close>.  \<^verbatim>\<open>jobs_.front()\<close> on an empty queue is undefined; the model
  has no step there (the worker tests \<^verbatim>\<open>jobs_.empty()\<close> under the same lock just
  before).
\<close>

definition WorkerThread :: "nat \<Rightarrow> pool \<Rightarrow> pool option" where
  "WorkerThread i s =
    (if length (threads s) \<le> i then None
     else case threads s ! i of
       W_loop \<Rightarrow> Some (w_at i (if stop_flag s then W_exited else W_lock) s)
     | W_lock \<Rightarrow>
         (if queue_mutex s = None
          then Some (w_at i W_wait (s\<lparr>queue_mutex := Some (Worker i)\<rparr>)) else None)
     | W_wait \<Rightarrow>
         Some (w_at i (if stop_flag s \<or> jobs s \<noteq> [] \<or> \<not> paused s
                       then W_chk_stop else W_preblock) s)
     | W_preblock \<Rightarrow>
         Some (w_at i W_blocked
                 (s\<lparr>queue_mutex := None, condition := Worker i # condition s\<rparr>))
     | W_blocked \<Rightarrow>
         (if Worker i \<in> set (condition s) then None else Some (w_at i W_relock s))
     | W_relock \<Rightarrow>
         (if queue_mutex s = None
          then Some (w_at i W_wait (s\<lparr>queue_mutex := Some (Worker i)\<rparr>)) else None)
     | W_chk_stop \<Rightarrow>
         (if stop_flag s then Some (w_at i W_exited (s\<lparr>queue_mutex := None\<rparr>))
          else Some (w_at i W_chk_paused s))
     | W_chk_paused \<Rightarrow>
         (if paused s then Some (w_at i W_loop (s\<lparr>queue_mutex := None\<rparr>))
          else Some (w_at i W_chk_empty s))
     | W_chk_empty \<Rightarrow>
         (if jobs s = [] then Some (w_at i W_loop (s\<lparr>queue_mutex := None\<rparr>))
          else Some (w_at i W_pop s))
     | W_pop \<Rightarrow>
         (case jobs s of
            [] \<Rightarrow> None
          | j # js \<Rightarrow> Some (w_at i (W_unlock j) (s\<lparr>jobs := js, dequeued := dequeued s @ [j]\<rparr>)))
     | W_unlock j \<Rightarrow> Some (w_at i (W_inc j) (s\<lparr>queue_mutex := None\<rparr>))
     | W_inc j \<Rightarrow> Some (w_at i (W_call j) (s\<lparr>active_jobs := size_t_incr (active_jobs s)\<rparr>))
     | W_call j \<Rightarrow> Some (w_at i (W_run j) (s\<lparr>started := started s @ [j]\<rparr>))
     | W_run j \<Rightarrow>
         Some (w_at i (case throws j of None \<Rightarrow> W_dec | Some e \<Rightarrow> W_catch e)
                 (s\<lparr>finished := finished s @ [j]\<rparr>))
     | W_catch e \<Rightarrow> Some (w_at i (W_store e) s)
     | W_store e \<Rightarrow>
         Some (w_at i W_dec (s\<lparr>last_exception := Some e, recorded := recorded s @ [e]\<rparr>))
     | W_dec \<Rightarrow> Some (w_at i W_notify (s\<lparr>active_jobs := size_t_decr (active_jobs s)\<rparr>))
     | W_notify \<Rightarrow> Some (w_at i W_loop (s\<lparr>condition := []\<rparr>))
     | W_exited \<Rightarrow> None)"

subsection \<open>One step of a thread inside a member function\<close>

text \<open>
  \<^verbatim>\<open>AddJob\<close> and \<^verbatim>\<open>AddJobs\<close> (header, lines 27-36 and 38-49), \<^verbatim>\<open>WaitForAllJobs\<close>
  (lines 26-34), \<^verbatim>\<open>Pause\<close> (41-43), \<^verbatim>\<open>Resume\<close> (45-48) and the destructor (13-24).
  The \<^verbatim>\<open>spdlog::debug\<close> calls, whose argument \<^verbatim>\<open>jobs_.size()\<close> is read after the
  mutex has been released, change nothing in the pool and are left out.
  \<^verbatim>\<open>notify_one\<close> with nobody waiting is the step below; with somebody waiting it is the
  event \<open>Notify_one\<close>, which names the thread that is woken.  \<^verbatim>\<open>thread.join()\<close> is a
  step that exists only when that worker has returned; every thread is joinable, since
  the constructor started it and nothing else joins or detaches it.  In
  \<^verbatim>\<open>WaitForAllJobs\<close> the test of the predicate and the call of \<^verbatim>\<open>wait(lock)\<close> are two
  steps, so that the decrement and the notification of lines 71-72, which take no mutex,
  can fall between them.  \<^verbatim>\<open>std::rethrow_exception\<close> of a null pointer is undefined; the
  model has no step there (the slot was read as set in line 31 and no step resets it).
\<close>

definition member_step :: "nat \<Rightarrow> pool \<Rightarrow> pool option" where
  "member_step c s =
    (if length (callers s) \<le> c then None
     else case callers s ! c of
       C_idle \<Rightarrow> None
     | A_lock j \<Rightarrow>
         (if queue_mutex s = None
          then Some (c_at c (A_push j) (s\<lparr>queue_mutex := Some (Caller c)\<rparr>)) else None)
     | A_push j \<Rightarrow>
         Some (c_at c A_unlock (s\<lparr>jobs := jobs s @ [j], submitted := submitted s @ [j]\<rparr>))
     | A_unlock \<Rightarrow> Some (c_at c A_notify (s\<lparr>queue_mutex := None\<rparr>))
     | A_notify \<Rightarrow> (if condition s = [] then Some (c_at c C_idle s) else None)
     | B_lock js \<Rightarrow>
         (if queue_mutex s = None
          then Some (c_at c (B_push js) (s\<lparr>queue_mutex := Some (Caller c)\<rparr>)) else None)
     | B_push js \<Rightarrow>
         (case js of
            [] \<Rightarrow> Some (c_at c B_unlock s)
          | j # js' \<Rightarrow>
              Some (c_at c (B_push js')
                     (s\<lparr>jobs := jobs s @ [j], submitted := submitted s @ [j]\<rparr>)))
     | B_unlock \<Rightarrow> Some (c_at c B_notify (s\<lparr>queue_mutex := None\<rparr>))
     | B_notify \<Rightarrow> Some (c_at c C_idle (s\<lparr>condition := []\<rparr>))
     | J_lock \<Rightarrow>
         (if queue_mutex s = None
          then Some (c_at c J_wait (s\<lparr>queue_mutex := Some (Caller c)\<rparr>)) else None)
     | J_wait \<Rightarrow>
         Some (c_at c (if jobs s = [] \<and> active_jobs s = 0 then J_chk_exc else J_preblock) s)
     | J_preblock \<Rightarrow>
         Some (c_at c J_blocked
                 (s\<lparr>queue_mutex := None, condition := Caller c # condition s\<rparr>))
     | J_blocked \<Rightarrow>
         (if Caller c \<in> set (condition s) then None else Some (c_at c J_relock s))
     | J_relock \<Rightarrow>
         (if queue_mutex s = None
          then Some (c_at c J_wait (s\<lparr>queue_mutex := Some (Caller c)\<rparr>)) else None)
     | J_chk_exc \<Rightarrow>
         Some (c_at c (case last_exception s of
                         None \<Rightarrow> J_unlock Returned | Some e \<Rightarrow> J_rethrow) s)
     | J_rethrow \<Rightarrow>
         (case last_exception s of
            None \<Rightarrow> None
          | Some e \<Rightarrow> Some (c_at c (J_unlock (Raised e)) s))
     | J_unlock r \<Rightarrow>
         Some (c_at c C_idle (s\<lparr>queue_mutex := None, outcomes := outcomes s @ [(c, r)]\<rparr>))
     | P_store \<Rightarrow> Some (c_at c C_idle (s\<lparr>paused := True\<rparr>))
     | R_store \<Rightarrow> Some (c_at c R_notify (s\<lparr>paused := False\<rparr>))
     | R_notify \<Rightarrow> Some (c_at c C_idle (s\<lparr>condition := []\<rparr>))
     | D_lock \<Rightarrow>
         (if queue_mutex s = None
          then Some (c_at c D_store (s\<lparr>queue_mutex := Some (Caller c)\<rparr>)) else None)
     | D_store \<Rightarrow> Some (c_at c D_unlock (s\<lparr>stop_flag := True\<rparr>))
     | D_unlock \<Rightarrow> Some (c_at c D_notify (s\<lparr>queue_mutex := None\<rparr>))
     | D_notify \<Rightarrow> Some (c_at c (D_join 0) (s\<lparr>condition := []\<rparr>))
     | D_join n \<Rightarrow>
         (if length (threads s) \<le> n then Some (c_at c C_destroyed s)
          else if threads s ! n = W_exited then Some (c_at c (D_join (Suc n)) s)
          else None)
     | C_destroyed \<Rightarrow> None)"

text \<open>An idle thread enters a member function.\<close>

fun entry :: "op \<Rightarrow> cpc" where
  "entry (AddJob j) = A_lock j"
| "entry (AddJobs js) = B_lock js"
| "entry WaitForAllJobs = J_lock"
| "entry Pause = P_store"
| "entry Resume = R_store"
| "entry Destroy = D_lock"

definition call :: "nat \<Rightarrow> op \<Rightarrow> pool \<Rightarrow> pool option" where
  "call c f s =
    (if c < length (callers s) \<and> callers s ! c = C_idle then Some (c_at c (entry f) s)
     else None)"

text \<open>
  \<^verbatim>\<open>notify_one\<close> in \<^verbatim>\<open>AddJob\<close> (header, line 34) when threads are waiting: one of them,
  \<open>t\<close>, is taken out of the waiting set.
\<close>

definition notify_one :: "nat \<Rightarrow> tid \<Rightarrow> pool \<Rightarrow> pool option" where
  "notify_one c t s =
    (if c < length (callers s) \<and> callers s ! c = A_notify \<and> t \<in> set (condition s)
     then Some (c_at c C_idle (s\<lparr>condition := removeAll t (condition s)\<rparr>))
     else None)"

text \<open>
  \<^verbatim>\<open>std::condition_variable::wait\<close> may return without a notification; a blocked thread
  then leaves the waiting set by itself.
\<close>

definition spurious :: "tid \<Rightarrow> pool \<Rightarrow> pool option" where
  "spurious t s =
    (case t of
       Worker i \<Rightarrow>
         (if i < length (threads s) \<and> threads s ! i = W_blocked
          then Some (w_at i W_relock (s\<lparr>condition := removeAll t (condition s)\<rparr>))
          else None)
     | Caller c \<Rightarrow>
         (if c < length (callers s) \<and> callers s ! c = J_blocked
          then Some (c_at c J_relock (s\<lparr>condition := removeAll t (condition s)\<rparr>))
          else None))"

subsection \<open>Schedules\<close>

datatype event =
    Work nat            \<comment> \<open>the next step of a worker\<close>
  | Call nat op         \<comment> \<open>an idle thread calls a member function\<close>
  | Step nat            \<comment> \<open>the next step of a thread inside a member function\<close>
  | Notify_one nat tid
  | Spurious tid

fun step :: "event \<Rightarrow> pool \<Rightarrow> pool option" where
  "step (Work i) s = WorkerThread i s"
| "step (Call c f) s = call c f s"
| "step (Step c) s = member_step c s"
| "step (Notify_one c t) s = notify_one c t s"
| "step (Spurious t) s = spurious t s"

text \<open>
  A schedule is a list of events; \<open>run\<close> is \<open>None\<close> when some event of the schedule is
  not possible in the state it meets.
\<close>

fun run :: "event list \<Rightarrow> pool \<Rightarrow> pool option" where
  "run [] s = Some s"
| "run (e # es) s = (case step e s of None \<Rightarrow> None | Some s' \<Rightarrow> run es s')"

text \<open>The predicate \<^verbatim>\<open>WaitForAllJobs\<close> waits for (lines 28-30).\<close>

definition drained :: "pool \<Rightarrow> bool" where
  "drained s \<longleftrightarrow> jobs s = [] \<and> active_jobs s = 0"

section \<open>Predicates on program counters and states\<close>

text \<open>The program counters at which a thread owns \<^verbatim>\<open>queue_mutex_\<close>.\<close>

fun holds_w :: "wpc \<Rightarrow> bool" where
  "holds_w W_wait = True"
| "holds_w W_preblock = True"
| "holds_w W_chk_stop = True"
| "holds_w W_chk_paused = True"
| "holds_w W_chk_empty = True"
| "holds_w W_pop = True"
| "holds_w (W_unlock j) = True"
| "holds_w _ = False"

fun holds_c :: "cpc \<Rightarrow> bool" where
  "holds_c (A_push j) = True"
| "holds_c A_unlock = True"
| "holds_c (B_push js) = True"
| "holds_c B_unlock = True"
| "holds_c J_wait = True"
| "holds_c J_preblock = True"
| "holds_c J_chk_exc = True"
| "holds_c J_rethrow = True"
| "holds_c (J_unlock r) = True"
| "holds_c D_store = True"
| "holds_c D_unlock = True"
| "holds_c _ = False"

definition mutex_inv :: "pool \<Rightarrow> bool" where
  "mutex_inv s \<longleftrightarrow>
     (\<forall>i<length (threads s). holds_w (threads s ! i) \<longrightarrow> queue_mutex s = Some (Worker i)) \<and>
     (\<forall>c<length (callers s). holds_c (callers s ! c) \<longrightarrow> queue_mutex s = Some (Caller c))"

text \<open>
  A worker is \<open>Running\<close> from the moment it has taken a job out of the queue until it is
  back at the head of its loop; it is \<open>counted\<close> in \<^verbatim>\<open>active_jobs_\<close> between the
  increment of line 64 and the decrement of line 71.
\<close>

fun Running :: "wpc \<Rightarrow> bool" where
  "Running (W_unlock j) = True"
| "Running (W_inc j) = True"
| "Running (W_call j) = True"
| "Running (W_run j) = True"
| "Running (W_catch e) = True"
| "Running (W_store e) = True"
| "Running W_dec = True"
| "Running W_notify = True"
| "Running _ = False"

fun counted :: "wpc \<Rightarrow> bool" where
  "counted (W_call j) = True"
| "counted (W_run j) = True"
| "counted (W_catch e) = True"
| "counted (W_store e) = True"
| "counted W_dec = True"
| "counted _ = False"

definition active_inv :: "pool \<Rightarrow> bool" where
  "active_inv s \<longleftrightarrow>
     length (threads s) < 2 ^ 64 \<and> active_jobs s = length (filter counted (threads s))"

text \<open>
  The job a worker has taken out of the queue and not yet called (\<open>fetched\<close>), and the
  job it is inside (\<open>inside\<close>).
\<close>

fun fetched :: "wpc \<Rightarrow> job list" where
  "fetched (W_unlock j) = [j]"
| "fetched (W_inc j) = [j]"
| "fetched (W_call j) = [j]"
| "fetched _ = []"

fun inside :: "wpc \<Rightarrow> job list" where
  "inside (W_run j) = [j]"
| "inside _ = []"

text \<open>
  A worker that has read \<^verbatim>\<open>paused_\<close> as clear in line 59 and has not yet taken its job
  (\<open>past_gate\<close>), or has not yet called it (\<open>before_call\<close>).
\<close>

fun past_gate :: "wpc \<Rightarrow> bool" where
  "past_gate W_chk_empty = True"
| "past_gate W_pop = True"
| "past_gate _ = False"

fun before_call :: "wpc \<Rightarrow> bool" where
  "before_call W_chk_empty = True"
| "before_call W_pop = True"
| "before_call (W_unlock j) = True"
| "before_call (W_inc j) = True"
| "before_call (W_call j) = True"
| "before_call _ = False"

text \<open>A schedule during which a condition holds in every state it passes through.\<close>

fun run_while :: "(pool \<Rightarrow> bool) \<Rightarrow> event list \<Rightarrow> pool \<Rightarrow> pool option" where
  "run_while P [] s = (if P s then Some s else None)"
| "run_while P (e # es) s =
     (if P s then case step e s of None \<Rightarrow> None | Some s' \<Rightarrow> run_while P es s' else None)"

text \<open>
  The schedule in which worker \<open>i\<close>, alone, takes one job from the queue and runs it: one
  turn of the loop of \<^verbatim>\<open>WorkerThread\<close>, with the handler when the job throws.
\<close>

definition turn :: "nat \<Rightarrow> job \<Rightarrow> event list" where
  "turn i j =
     [Work i, Work i, Work i, Work i, Work i, Work i, Work i, Work i, Work i, Work i, Work i]
     @ (case throws j of None \<Rightarrow> [] | Some e \<Rightarrow> [Work i, Work i]) @ [Work i, Work i]"

text \<open>
  The schedules in which thread \<open>c\<close>, alone and with nobody blocked on the condition
  variable, calls \<^verbatim>\<open>AddJob\<close>, and calls \<^verbatim>\<open>WaitForAllJobs\<close> on a drained pool
  whose slot is empty.
\<close>

definition add_job :: "nat \<Rightarrow> job \<Rightarrow> event list" where
  "add_job c j = [Call c (AddJob j), Step c, Step c, Step c, Step c]"

definition wait_all :: "nat \<Rightarrow> event list" where
  "wait_all c = [Call c WaitForAllJobs, Step c, Step c, Step c, Step c]"

text \<open>
  The states after which the stopping flag keeps workers from the queue: the flag is set
  and no worker is between the test of line 58 and the \<^verbatim>\<open>pop\<close> of line 62.
\<close>

fun in_fetch :: "wpc \<Rightarrow> bool" where
  "in_fetch W_chk_paused = True"
| "in_fetch W_chk_empty = True"
| "in_fetch W_pop = True"
| "in_fetch _ = False"

definition stop_inv :: "pool \<Rightarrow> bool" where
  "stop_inv s \<longleftrightarrow> (stop_flag s \<longrightarrow> (\<forall>i<length (threads s). \<not> in_fetch (threads s ! i)))"

definition join_inv :: "pool \<Rightarrow> bool" where
  "join_inv s \<longleftrightarrow>
     (\<forall>c<length (callers s).
        (\<forall>n. callers s ! c = D_join n \<longrightarrow>
           (\<forall>i<length (threads s). i < n \<longrightarrow> threads s ! i = W_exited)) \<and>
        (callers s ! c = C_destroyed \<longrightarrow>
           (\<forall>i<length (threads s). threads s ! i = W_exited)))"

text \<open>The program counters of the destructor after the store of line 16.\<close>

fun after_store :: "cpc \<Rightarrow> bool" where
  "after_store D_unlock = True"
| "after_store D_notify = True"
| "after_store (D_join n) = True"
| "after_store C_destroyed = True"
| "after_store _ = False"

text \<open>
  Every job taken out of the queue is with a worker that has not called it yet, or has
  been called; every job called is being run or has finished.
\<close>

definition ledger :: "pool \<Rightarrow> bool" where
  "ledger s \<longleftrightarrow>
     mset (dequeued s) = mset (concat (map fetched (threads s))) + mset (started s) \<and>
     mset (started s) = mset (concat (map inside (threads s))) + mset (finished s)"

text \<open>
  The data race on \<^verbatim>\<open>last_exception_\<close>.  A worker at \<open>W_store\<close> is in the middle of the
  assignment of line 68; a thread at \<open>J_chk_exc\<close> or \<open>J_rethrow\<close> is about to read the
  slot (lines 31 and 32).  Two assignments in progress at once, or a read due while an
  assignment is in progress, are conflicting accesses that nothing orders.
\<close>

fun storing :: "wpc \<Rightarrow> bool" where
  "storing (W_store e) = True"
| "storing _ = False"

fun reading :: "cpc \<Rightarrow> bool" where
  "reading J_chk_exc = True"
| "reading J_rethrow = True"
| "reading _ = False"

definition slot_race :: "pool \<Rightarrow> bool" where
  "slot_race s \<longleftrightarrow>
     2 \<le> length (filter storing (threads s)) \<or>
     1 \<le> length (filter storing (threads s)) \<and> 1 \<le> length (filter reading (callers s))"

section \<open>The name-resolution helper\<close>

text \<open>
  \<^verbatim>\<open>DnsResolver::resolve\<close> (\<^verbatim>\<open>include/dns_resolver.h\<close>, lines 11-24) hands a lambda to
  \<^verbatim>\<open>std::async\<close>; \<^verbatim>\<open>get()\<close> on the future it returns yields what the lambda returns,
  or rethrows the exception that left the lambda.  What the Boost.Asio call of line 14
  does is a parameter of the model: it returns a range of endpoints, or raises
  \<^verbatim>\<open>boost::system::system_error\<close> with a message, or raises an exception of another
  type (\<^verbatim>\<open>std::bad_alloc\<close>, say), which the handler of line 19 does not catch.

  An address is an IPv4 address of four octets, which \<^verbatim>\<open>to_string()\<close> renders in dotted
  decimal, or an IPv6 address, kept as the text that the platform's conversion gives: a
  first character, which is a hexadecimal digit or a colon, and the rest.
\<close>

datatype lead = Hex "4 word" | Colon

datatype address = V4 "8 word" "8 word" "8 word" "8 word" | V6 lead string

fun lead_char :: "lead \<Rightarrow> char" where
  "lead_char (Hex n) = ''0123456789abcdef'' ! unat n"
| "lead_char Colon = CHR '':''"

fun decimal :: "nat \<Rightarrow> string" where
  "decimal n =
     (if n < 10 then [''0123456789'' ! n]
      else decimal (n div 10) @ [''0123456789'' ! (n mod 10)])"

fun to_string :: "address \<Rightarrow> string" where
  "to_string (V4 a b c d) =
     decimal (unat a) @ ''.'' @ decimal (unat b) @ ''.'' @ decimal (unat c) @ ''.''
       @ decimal (unat d)"
| "to_string (V6 l rest) = lead_char l # rest"

datatype lookup = Endpoints "address list" | System_error string | Other_exception string

text \<open>What \<^verbatim>\<open>get()\<close> on the future does: it returns a string or rethrows.\<close>

datatype handle = Ready string | Rethrows string

definition resolve :: "(string \<Rightarrow> lookup) \<Rightarrow> string \<Rightarrow> handle" where
  "resolve resolver hostname =
     (case resolver hostname of
        Endpoints results \<Rightarrow>
          (case results of a # _ \<Rightarrow> Ready (to_string a) | [] \<Rightarrow> Ready ''No results'')
      | System_error what \<Rightarrow> Ready (''Error: '' @ what)
      | Other_exception what \<Rightarrow> Rethrows what)"

text \<open>
  Modelled from the spec: the spec calls the first outcome a routable address; the source
  has no such notion (it hands on whatever address the lookup returns).  An address in
  one of the blocks that RFC 1918 reserves for private use is not routable; the
  repository's test \<^verbatim>\<open>HandlesNonRoutableIP\<close> names \<^verbatim>\<open>10.255.255.1\<close> so.
\<close>

fun private_use :: "address \<Rightarrow> bool" where
  "private_use (V4 a b c d) =
     (a = 10 \<or> a = 172 \<and> 16 \<le> b \<and> b \<le> 31 \<or> a = 192 \<and> b = 168)"
| "private_use (V6 l rest) = False"

text \<open>
  Two behaviours of the library for the examples: a network in which the numeric host
  strings of the repository's tests resolve to themselves, the empty name has no results
  and every other name is not found; and a library call that fails to allocate memory.
\<close>

definition test_net :: "string \<Rightarrow> lookup" where
  "test_net hostname =
     (if hostname = ''10.255.255.1'' then Endpoints [V4 10 255 255 1]
      else if hostname = ''8.8.8.8'' then Endpoints [V4 8 8 8 8]
      else if hostname = [] then Endpoints []
      else System_error ''resolve: Host not found (authoritative)'')"

definition exhausted :: "string \<Rightarrow> lookup" where
  "exhausted hostname = Other_exception ''std::bad_alloc''"

declare decimal.simps [simp del]

section \<open>Basic facts about schedules\<close>

lemma run_append: "run (es @ es') s = (case run es s of None \<Rightarrow> None | Some s' \<Rightarrow> run es' s')"
  by (induction es arbitrary: s) (auto split: option.splits)

lemma run_invariant:
  assumes run: "run es s = Some s'" and init: "P s"
    and pres: "\<And>e s s'. P s \<Longrightarrow> step e s = Some s' \<Longrightarrow> P s'"
  shows "P s'"
  using init run
proof (induction es arbitrary: s)
  case Nil
  then show ?case by simp
next
  case (Cons e es)
  then obtain s1 where s1: "step e s = Some s1" "run es s1 = Some s'"
    by (auto split: option.splits)
  from pres [OF Cons.prems(1) s1(1)] s1(2) show ?case by (rule Cons.IH)
qed

lemmas step_defs =
  WorkerThread_def member_step_def call_def notify_one_def spurious_def w_at_def c_at_def

lemma replicate_2: "replicate 2 x = [x, x]"
  by (simp add: numeral_2_eq_2)


lemma run_split: "run es s = Some s1 \<Longrightarrow> run (es @ es') s = Some s2 \<Longrightarrow> run es' s1 = Some s2"
  by (simp add: run_append)

lemmas sched_defs = JobPool_def step_defs add_job_def wait_all_def turn_def
  size_t_incr_def size_t_decr_def drained_def slot_race_def

section \<open>Invariants of the pool\<close>

subsection \<open>Steps by kind\<close>

lemma step_preserves:
  assumes "\<And>i. WorkerThread i s = Some s' \<Longrightarrow> P"
    and "\<And>c. member_step c s = Some s' \<Longrightarrow> P"
    and "\<And>c f. call c f s = Some s' \<Longrightarrow> P"
    and "\<And>c t. notify_one c t s = Some s' \<Longrightarrow> P"
    and "\<And>t. spurious t s = Some s' \<Longrightarrow> P"
    and "step e s = Some s'"
  shows P
  using assms by (cases e) auto

lemma length_step:
  assumes "step e s = Some s'"
  shows "length (threads s') = length (threads s) \<and> length (callers s') = length (callers s)"
proof (rule step_preserves [OF _ _ _ _ _ assms])
  fix i assume "WorkerThread i s = Some s'"
  then show ?thesis
    by (cases "threads s ! i")
      (auto simp: WorkerThread_def w_at_def split: if_splits list.splits option.splits)
next
  fix c assume "member_step c s = Some s'"
  then show ?thesis
    by (cases "callers s ! c")
      (auto simp: member_step_def c_at_def split: if_splits list.splits option.splits)
next
  fix c f assume "call c f s = Some s'"
  then show ?thesis by (auto simp: call_def c_at_def split: if_splits)
next
  fix c t assume "notify_one c t s = Some s'"
  then show ?thesis by (auto simp: notify_one_def c_at_def split: if_splits)
next
  fix t assume "spurious t s = Some s'"
  then show ?thesis by (cases t) (auto simp: spurious_def c_at_def w_at_def split: if_splits)
qed

lemma length_run:
  assumes "run es s = Some s'"
  shows "length (threads s') = length (threads s) \<and> length (callers s') = length (callers s)"
proof -
  have "length (threads s') = length (threads s) \<and> length (callers s') = length (callers s)"
    using assms
    by (rule run_invariant [where P = "\<lambda>x. length (threads x) = length (threads s)
          \<and> length (callers x) = length (callers s)"])
      (auto dest: length_step)
  then show ?thesis .
qed

subsection \<open>First in, first out\<close>

lemma fifo_step:
  assumes "submitted s = dequeued s @ jobs s" "step e s = Some s'"
  shows "submitted s' = dequeued s' @ jobs s'"
proof (rule step_preserves [OF _ _ _ _ _ assms(2)])
  fix i assume "WorkerThread i s = Some s'"
  with assms(1) show ?thesis
    by (cases "threads s ! i")
      (auto simp: WorkerThread_def w_at_def split: if_splits list.splits option.splits)
next
  fix c assume "member_step c s = Some s'"
  with assms(1) show ?thesis
    by (cases "callers s ! c")
      (auto simp: member_step_def c_at_def split: if_splits list.splits option.splits)
next
  fix c f assume "call c f s = Some s'"
  with assms(1) show ?thesis by (auto simp: call_def c_at_def split: if_splits)
next
  fix c t assume "notify_one c t s = Some s'"
  with assms(1) show ?thesis by (auto simp: notify_one_def c_at_def split: if_splits)
next
  fix t assume "spurious t s = Some s'"
  with assms(1) show ?thesis
    by (cases t) (auto simp: spurious_def c_at_def w_at_def split: if_splits)
qed

lemma fifo_run:
  assumes "run es (JobPool k m) = Some s"
  shows "submitted s = dequeued s @ jobs s"
proof -
  have "submitted (JobPool k m) = dequeued (JobPool k m) @ jobs (JobPool k m)"
    by (simp add: JobPool_def)
  with assms show ?thesis
    by (rule run_invariant [where P = "\<lambda>s. submitted s = dequeued s @ jobs s"])
      (rule fifo_step)
qed


subsection \<open>Counting workers\<close>

lemma count_update:
  "i < length xs \<Longrightarrow>
   length (filter P (xs[i := x])) + (if P (xs ! i) then 1 else 0)
     = length (filter P xs) + (if P x then 1 else 0)"
proof (induction xs arbitrary: i)
  case Nil
  then show ?case by simp
next
  case (Cons a xs)
  then show ?case by (cases i) auto
qed

lemma count_same:
  "i < length xs \<Longrightarrow> P x = P (xs ! i) \<Longrightarrow>
   length (filter P (xs[i := x])) = length (filter P xs)"
  using count_update [of i xs P x] by (simp split: if_splits)

lemma count_enter:
  "i < length xs \<Longrightarrow> \<not> P (xs ! i) \<Longrightarrow> P x \<Longrightarrow>
   length (filter P (xs[i := x])) = Suc (length (filter P xs))"
  using count_update [of i xs P x] by simp

lemma count_leave:
  "i < length xs \<Longrightarrow> P (xs ! i) \<Longrightarrow> \<not> P x \<Longrightarrow>
   Suc (length (filter P (xs[i := x]))) = length (filter P xs)"
  using count_update [of i xs P x] by simp

lemma size_t_incr_eq: "Suc n < 2 ^ 64 \<Longrightarrow> size_t_incr n = Suc n"
  by (simp add: size_t_incr_def)

lemma size_t_decr_eq: "Suc n < 2 ^ 64 \<Longrightarrow> size_t_decr (Suc n) = n"
  by (simp add: size_t_decr_def)

lemma active_W:
  assumes inv: "active_inv s" and st: "WorkerThread i s = Some s'"
  shows "active_inv s'"
proof -
  from st have i: "i < length (threads s)"
    by (auto simp: WorkerThread_def split: if_splits)
  let ?n = "length (filter counted (threads s))"
  from inv have k: "length (threads s) < 2 ^ 64" and a: "active_jobs s = ?n"
    by (simp_all add: active_inv_def)
  have le: "length (filter counted xs) \<le> length xs" for xs :: "wpc list"
    by simp
  show ?thesis
  proof (cases "threads s ! i")
    case (W_inc j)
    then have s': "s' = w_at i (W_call j) (s\<lparr>active_jobs := size_t_incr (active_jobs s)\<rparr>)"
      using st i by (simp add: WorkerThread_def)
    have c: "length (filter counted ((threads s)[i := W_call j])) = Suc ?n"
      using i W_inc by (simp add: count_enter)
    have "Suc ?n \<le> length ((threads s)[i := W_call j])"
      unfolding c [symmetric] by (rule le)
    with k have "Suc ?n < 2 ^ 64" by simp
    then show ?thesis
      using k a c by (simp add: s' active_inv_def w_at_def size_t_incr_eq)
  next
    case W_dec
    then have s': "s' = w_at i W_notify (s\<lparr>active_jobs := size_t_decr (active_jobs s)\<rparr>)"
      using st i by (simp add: WorkerThread_def)
    have c: "Suc (length (filter counted ((threads s)[i := W_notify]))) = ?n"
      using i W_dec by (simp add: count_leave)
    have "?n < 2 ^ 64" using le k by (rule le_less_trans)
    with c have "Suc (length (filter counted ((threads s)[i := W_notify]))) < 2 ^ 64"
      by simp
    then show ?thesis
      using k a c [symmetric] by (simp add: s' active_inv_def w_at_def size_t_decr_eq)
  qed (use inv st i in \<open>auto simp: active_inv_def WorkerThread_def w_at_def count_same
        split: if_splits list.splits option.splits\<close>)
qed

lemma active_step:
  assumes "active_inv s" "step e s = Some s'"
  shows "active_inv s'"
proof (rule step_preserves [OF _ _ _ _ _ assms(2)])
  fix i assume "WorkerThread i s = Some s'"
  with assms(1) show ?thesis by (rule active_W)
next
  fix c assume "member_step c s = Some s'"
  with assms(1) show ?thesis
    by (cases "callers s ! c")
      (auto simp: active_inv_def member_step_def c_at_def split: if_splits list.splits option.splits)
next
  fix c f assume "call c f s = Some s'"
  with assms(1) show ?thesis by (auto simp: active_inv_def call_def c_at_def split: if_splits)
next
  fix c t assume "notify_one c t s = Some s'"
  with assms(1) show ?thesis by (auto simp: active_inv_def notify_one_def c_at_def split: if_splits)
next
  fix t assume "spurious t s = Some s'"
  with assms(1) show ?thesis
    by (cases t) (auto simp: active_inv_def spurious_def c_at_def w_at_def count_same split: if_splits)
qed

lemma active_init: "k < 2 ^ 64 \<Longrightarrow> active_inv (JobPool k m)"
  by (simp add: active_inv_def JobPool_def)

lemma active_run:
  assumes "k < 2 ^ 64" "run es (JobPool k m) = Some s"
  shows "active_inv s"
  using assms(2) active_init [OF assms(1)] by (rule run_invariant) (rule active_step)

subsection \<open>Mutual exclusion\<close>

lemma mutex_excl_w:
  assumes "mutex_inv s" "i < length (threads s)" "holds_w (threads s ! i)"
  shows "queue_mutex s = Some (Worker i)"
    and "\<forall>ia<length (threads s). ia \<noteq> i \<longrightarrow> \<not> holds_w (threads s ! ia)"
    and "\<forall>c<length (callers s). \<not> holds_c (callers s ! c)"
proof -
  from assms show own: "queue_mutex s = Some (Worker i)"
    unfolding mutex_inv_def by blast
  have "ia = i" if "ia < length (threads s)" "holds_w (threads s ! ia)" for ia
  proof -
    from assms(1) that have "queue_mutex s = Some (Worker ia)"
      unfolding mutex_inv_def by blast
    with own show ?thesis by simp
  qed
  then show "\<forall>ia<length (threads s). ia \<noteq> i \<longrightarrow> \<not> holds_w (threads s ! ia)"
    by blast
  have False if "c < length (callers s)" "holds_c (callers s ! c)" for c
  proof -
    from assms(1) that have "queue_mutex s = Some (Caller c)"
      unfolding mutex_inv_def by blast
    with own show ?thesis by simp
  qed
  then show "\<forall>c<length (callers s). \<not> holds_c (callers s ! c)"
    by blast
qed

lemma mutex_excl_c:
  assumes "mutex_inv s" "c < length (callers s)" "holds_c (callers s ! c)"
  shows "queue_mutex s = Some (Caller c)"
    and "\<forall>ca<length (callers s). ca \<noteq> c \<longrightarrow> \<not> holds_c (callers s ! ca)"
    and "\<forall>i<length (threads s). \<not> holds_w (threads s ! i)"
proof -
  from assms show own: "queue_mutex s = Some (Caller c)"
    unfolding mutex_inv_def by blast
  have "ca = c" if "ca < length (callers s)" "holds_c (callers s ! ca)" for ca
  proof -
    from assms(1) that have "queue_mutex s = Some (Caller ca)"
      unfolding mutex_inv_def by blast
    with own show ?thesis by simp
  qed
  then show "\<forall>ca<length (callers s). ca \<noteq> c \<longrightarrow> \<not> holds_c (callers s ! ca)"
    by blast
  have False if "i < length (threads s)" "holds_w (threads s ! i)" for i
  proof -
    from assms(1) that have "queue_mutex s = Some (Worker i)"
      unfolding mutex_inv_def by blast
    with own show ?thesis by simp
  qed
  then show "\<forall>i<length (threads s). \<not> holds_w (threads s ! i)"
    by blast
qed

lemma mutex_W:
  assumes "mutex_inv s" "WorkerThread i s = Some s'"
  shows "mutex_inv s'"
proof (cases "i < length (threads s) \<and> holds_w (threads s ! i)")
  case True
  then have h: "i < length (threads s)" "holds_w (threads s ! i)" by simp_all
  note ex = mutex_excl_w [OF assms(1) h]
  show ?thesis
    using assms(2) h ex
    by (cases "threads s ! i")
      (auto simp: mutex_inv_def WorkerThread_def w_at_def nth_list_update
        split: if_splits list.splits option.splits)
next
  case False
  then show ?thesis
    using assms
    by (cases "threads s ! i")
      (auto simp: mutex_inv_def WorkerThread_def w_at_def nth_list_update
        split: if_splits list.splits option.splits)
qed

lemma mutex_M:
  assumes "mutex_inv s" "member_step c s = Some s'"
  shows "mutex_inv s'"
proof (cases "c < length (callers s) \<and> holds_c (callers s ! c)")
  case True
  then have h: "c < length (callers s)" "holds_c (callers s ! c)" by simp_all
  note ex = mutex_excl_c [OF assms(1) h]
  show ?thesis
    using assms(2) h ex
    by (cases "callers s ! c")
      (auto simp: mutex_inv_def member_step_def c_at_def nth_list_update
        split: if_splits list.splits option.splits)
next
  case False
  then show ?thesis
    using assms
    by (cases "callers s ! c")
      (auto simp: mutex_inv_def member_step_def c_at_def nth_list_update
        split: if_splits list.splits option.splits)
qed

lemma mutex_step:
  assumes "mutex_inv s" "step e s = Some s'"
  shows "mutex_inv s'"
proof (rule step_preserves [OF _ _ _ _ _ assms(2)])
  fix i assume "WorkerThread i s = Some s'"
  with assms(1) show ?thesis by (rule mutex_W)
next
  fix c assume "member_step c s = Some s'"
  with assms(1) show ?thesis by (rule mutex_M)
next
  fix c f assume "call c f s = Some s'"
  with assms(1) show ?thesis
    by (cases f) (auto simp: mutex_inv_def call_def c_at_def nth_list_update split: if_splits)
next
  fix c t assume "notify_one c t s = Some s'"
  with assms(1) show ?thesis
    by (auto simp: mutex_inv_def notify_one_def c_at_def nth_list_update split: if_splits)
next
  fix t assume "spurious t s = Some s'"
  with assms(1) show ?thesis
    by (cases t)
      (auto simp: mutex_inv_def spurious_def c_at_def w_at_def nth_list_update split: if_splits)
qed

lemma mutex_run:
  assumes "run es (JobPool k m) = Some s"
  shows "mutex_inv s"
proof -
  have "mutex_inv (JobPool k m)" by (simp add: mutex_inv_def JobPool_def)
  with assms show ?thesis by (rule run_invariant) (rule mutex_step)
qed

subsection \<open>The stopping flag\<close>

lemma in_fetch_holds: "in_fetch pc \<Longrightarrow> holds_w pc"
  by (cases pc) simp_all

lemma stop_step:
  assumes m: "mutex_inv s" and inv: "stop_inv s" and st: "step e s = Some s'"
  shows "stop_inv s'"
proof (rule step_preserves [OF _ _ _ _ _ st])
  fix i assume "WorkerThread i s = Some s'"
  with inv show ?thesis
    by (cases "threads s ! i")
      (auto simp: stop_inv_def WorkerThread_def w_at_def nth_list_update
        split: if_splits list.splits option.splits)
next
  fix c assume c: "member_step c s = Some s'"
  show ?thesis
  proof (cases "callers s ! c = D_store")
    case True
    from c have "c < length (callers s)" by (auto simp: member_step_def split: if_splits)
    from mutex_excl_c(3) [OF m this] True
    have "\<forall>i<length (threads s). \<not> in_fetch (threads s ! i)"
      by (auto dest: in_fetch_holds)
    with c True show ?thesis
      by (auto simp: stop_inv_def member_step_def c_at_def split: if_splits)
  next
    case False
    with inv c show ?thesis
      by (cases "callers s ! c")
        (auto simp: stop_inv_def member_step_def c_at_def split: if_splits list.splits option.splits)
  qed
next
  fix c f assume "call c f s = Some s'"
  with inv show ?thesis by (auto simp: stop_inv_def call_def c_at_def split: if_splits)
next
  fix c t assume "notify_one c t s = Some s'"
  with inv show ?thesis by (auto simp: stop_inv_def notify_one_def c_at_def split: if_splits)
next
  fix t assume "spurious t s = Some s'"
  with inv show ?thesis
    by (cases t)
      (auto simp: stop_inv_def spurious_def c_at_def w_at_def nth_list_update split: if_splits)
qed

lemma stop_run:
  assumes "run es (JobPool k m) = Some s"
  shows "mutex_inv s \<and> stop_inv s"
proof -
  have "mutex_inv (JobPool k m) \<and> stop_inv (JobPool k m)"
    by (simp add: mutex_inv_def stop_inv_def JobPool_def)
  with assms show ?thesis
    by (rule run_invariant) (auto intro: mutex_step stop_step)
qed

text \<open>Once the flag is set it stays set, and no step takes a job out of the queue.\<close>

lemma stopped_step:
  assumes inv: "stop_inv s" and stop: "stop_flag s" and st: "step e s = Some s'"
  shows "stop_flag s' \<and> dequeued s' = dequeued s \<and> (\<exists>js. jobs s' = jobs s @ js)"
proof (rule step_preserves [OF _ _ _ _ _ st])
  fix i assume w: "WorkerThread i s = Some s'"
  then have "i < length (threads s)" by (auto simp: WorkerThread_def split: if_splits)
  with inv stop have "\<not> in_fetch (threads s ! i)" by (simp add: stop_inv_def)
  with w stop show ?thesis
    by (cases "threads s ! i")
      (auto simp: WorkerThread_def w_at_def split: if_splits list.splits option.splits)
next
  fix c assume "member_step c s = Some s'"
  with stop show ?thesis
    by (cases "callers s ! c")
      (auto simp: member_step_def c_at_def split: if_splits list.splits option.splits)
next
  fix c f assume "call c f s = Some s'"
  with stop show ?thesis by (auto simp: call_def c_at_def split: if_splits)
next
  fix c t assume "notify_one c t s = Some s'"
  with stop show ?thesis by (auto simp: notify_one_def c_at_def split: if_splits)
next
  fix t assume "spurious t s = Some s'"
  with stop show ?thesis
    by (cases t) (auto simp: spurious_def c_at_def w_at_def split: if_splits)
qed

lemma stopped_run:
  assumes "mutex_inv s" "stop_inv s" "stop_flag s" "run es s = Some s'"
  shows "stop_flag s' \<and> dequeued s' = dequeued s \<and> (\<exists>js. jobs s' = jobs s @ js)"
proof -
  let ?P = "\<lambda>x. mutex_inv x \<and> stop_inv x \<and> stop_flag x \<and> dequeued x = dequeued s
              \<and> (\<exists>js. jobs x = jobs s @ js)"
  have "?P s'"
    using assms(4)
  proof (rule run_invariant [where P = ?P])
    show "?P s" using assms by simp
  next
    fix e x x' assume P: "?P x" and st: "step e x = Some x'"
    from P st have "mutex_inv x'" "stop_inv x'"
      by (auto intro: mutex_step stop_step)
    moreover from P st stopped_step [of x e x'] have "stop_flag x'" "dequeued x' = dequeued s"
      "\<exists>js. jobs x' = jobs s @ js"
      by auto
    ultimately show "?P x'" by simp
  qed
  then show ?thesis by simp
qed

subsection \<open>Joined workers\<close>

lemma join_step:
  assumes inv: "join_inv s" and st: "step e s = Some s'"
  shows "join_inv s'"
proof (rule step_preserves [OF _ _ _ _ _ st])
  fix i assume "WorkerThread i s = Some s'"
  with inv show ?thesis
    by (cases "threads s ! i")
      (auto simp: join_inv_def WorkerThread_def w_at_def nth_list_update
        split: if_splits list.splits option.splits)
next
  fix c assume "member_step c s = Some s'"
  with inv show ?thesis
    by (cases "callers s ! c")
      (auto simp: join_inv_def member_step_def c_at_def nth_list_update less_Suc_eq
        split: if_splits list.splits option.splits)
next
  fix c f assume "call c f s = Some s'"
  with inv show ?thesis
    by (cases f) (auto simp: join_inv_def call_def c_at_def nth_list_update split: if_splits)
next
  fix c t assume "notify_one c t s = Some s'"
  with inv show ?thesis
    by (auto simp: join_inv_def notify_one_def c_at_def nth_list_update split: if_splits)
next
  fix t assume "spurious t s = Some s'"
  with inv show ?thesis
    by (cases t)
      (auto simp: join_inv_def spurious_def c_at_def w_at_def nth_list_update split: if_splits)
qed

subsection \<open>No job is lost or duplicated\<close>

lemma mset_concat_update:
  "i < length xs \<Longrightarrow>
   mset (concat (map f (xs[i := x]))) + mset (f (xs ! i))
     = mset (concat (map f xs)) + mset (f x)"
proof (induction xs arbitrary: i)
  case Nil
  then show ?case by simp
next
  case (Cons a xs)
  then show ?case by (cases i) (auto simp: ac_simps)
qed

lemma mset_concat_same:
  "i < length xs \<Longrightarrow> f x = f (xs ! i) \<Longrightarrow>
   mset (concat (map f (xs[i := x]))) = mset (concat (map f xs))"
  using mset_concat_update [of i xs f x] by simp

lemma mset_concat_enter:
  "i < length xs \<Longrightarrow> f (xs ! i) = [] \<Longrightarrow>
   mset (concat (map f (xs[i := x]))) = mset (concat (map f xs)) + mset (f x)"
  using mset_concat_update [of i xs f x] by simp

lemma mset_concat_leave:
  "i < length xs \<Longrightarrow> f x = [] \<Longrightarrow>
   mset (concat (map f (xs[i := x]))) + mset (f (xs ! i)) = mset (concat (map f xs))"
  using mset_concat_update [of i xs f x] by simp

lemma ledger_W:
  assumes inv: "ledger s" and st: "WorkerThread i s = Some s'"
  shows "ledger s'"
proof -
  from st have i: "i < length (threads s)"
    by (auto simp: WorkerThread_def split: if_splits)
  show ?thesis
  proof (cases "threads s ! i")
    case W_pop
    with inv st i show ?thesis
      by (auto simp: ledger_def WorkerThread_def w_at_def mset_concat_same mset_concat_enter
          split: list.splits)
  next
    case (W_call j)
    with st i have s': "s' = w_at i (W_run j) (s\<lparr>started := started s @ [j]\<rparr>)"
      by (simp add: WorkerThread_def)
    from mset_concat_leave [of i "threads s" fetched "W_run j"] i W_call
    have 1: "mset (concat (map fetched ((threads s)[i := W_run j]))) + {#j#}
      = mset (concat (map fetched (threads s)))" by simp
    from mset_concat_enter [of i "threads s" inside "W_run j"] i W_call
    have 2: "mset (concat (map inside ((threads s)[i := W_run j])))
      = mset (concat (map inside (threads s))) + {#j#}" by simp
    from inv show ?thesis
      by (simp add: ledger_def s' w_at_def 1 [symmetric] 2)
  next
    case (W_run j)
    let ?pc = "case throws j of None \<Rightarrow> W_dec | Some e \<Rightarrow> W_catch e"
    from W_run st i have s': "s' = w_at i ?pc (s\<lparr>finished := finished s @ [j]\<rparr>)"
      by (simp add: WorkerThread_def)
    have f: "fetched ?pc = []" "inside ?pc = []"
      by (simp_all split: option.splits)
    from mset_concat_same [of i "threads s" fetched ?pc] i W_run f
    have 1: "mset (concat (map fetched ((threads s)[i := ?pc])))
      = mset (concat (map fetched (threads s)))" by simp
    from mset_concat_leave [of i "threads s" inside ?pc] i W_run f
    have 2: "mset (concat (map inside ((threads s)[i := ?pc]))) + {#j#}
      = mset (concat (map inside (threads s)))" by simp
    from inv show ?thesis
      by (simp add: ledger_def s' w_at_def 1 2 [symmetric])
  qed (use inv st i in \<open>auto simp: ledger_def WorkerThread_def w_at_def mset_concat_same
        split: if_splits list.splits option.splits\<close>)
qed

lemma ledger_step:
  assumes "ledger s" "step e s = Some s'"
  shows "ledger s'"
proof (rule step_preserves [OF _ _ _ _ _ assms(2)])
  fix i assume "WorkerThread i s = Some s'"
  with assms(1) show ?thesis by (rule ledger_W)
next
  fix c assume "member_step c s = Some s'"
  with assms(1) show ?thesis
    by (cases "callers s ! c")
      (auto simp: ledger_def member_step_def c_at_def split: if_splits list.splits option.splits)
next
  fix c f assume "call c f s = Some s'"
  with assms(1) show ?thesis by (auto simp: ledger_def call_def c_at_def split: if_splits)
next
  fix c t assume "notify_one c t s = Some s'"
  with assms(1) show ?thesis by (auto simp: ledger_def notify_one_def c_at_def split: if_splits)
next
  fix t assume "spurious t s = Some s'"
  with assms(1) show ?thesis
    by (cases t)
      (auto simp: ledger_def spurious_def c_at_def w_at_def mset_concat_same split: if_splits)
qed

lemma concat_replicate_Nil: "concat (replicate k []) = []"
  by (induction k) simp_all

lemma ledger_run:
  assumes "run es (JobPool k m) = Some s"
  shows "ledger s"
proof -
  have "ledger (JobPool k m)"
    by (simp add: ledger_def JobPool_def concat_replicate_Nil)
  with assms show ?thesis by (rule run_invariant) (rule ledger_step)
qed

subsection \<open>The destructor\<close>

lemma after_store_step:
  assumes inv: "\<forall>c<length (callers s). after_store (callers s ! c) \<longrightarrow> stop_flag s"
    and m: "mutex_inv s" and st: "step e s = Some s'"
  shows "\<forall>c<length (callers s'). after_store (callers s' ! c) \<longrightarrow> stop_flag s'"
proof (rule step_preserves [OF _ _ _ _ _ st])
  fix i assume "WorkerThread i s = Some s'"
  with inv show ?thesis
    by (cases "threads s ! i")
      (auto simp: WorkerThread_def w_at_def split: if_splits list.splits option.splits)
next
  fix c assume "member_step c s = Some s'"
  with inv show ?thesis
    by (cases "callers s ! c")
      (auto simp: member_step_def c_at_def nth_list_update
        split: if_splits list.splits option.splits)
next
  fix c f assume "call c f s = Some s'"
  with inv show ?thesis
    by (cases f) (auto simp: call_def c_at_def nth_list_update split: if_splits)
next
  fix c t assume "notify_one c t s = Some s'"
  with inv show ?thesis by (auto simp: notify_one_def c_at_def nth_list_update split: if_splits)
next
  fix t assume "spurious t s = Some s'"
  with inv show ?thesis
    by (cases t) (auto simp: spurious_def c_at_def w_at_def nth_list_update split: if_splits)
qed

lemma destructor_run:
  assumes "run es (JobPool k m) = Some s"
  shows "join_inv s \<and> (\<forall>c<length (callers s). after_store (callers s ! c) \<longrightarrow> stop_flag s)"
proof -
  let ?P = "\<lambda>s. mutex_inv s \<and> join_inv s
     \<and> (\<forall>c<length (callers s). after_store (callers s ! c) \<longrightarrow> stop_flag s)"
  have "?P s"
    using assms
  proof (rule run_invariant [where P = ?P])
    show "?P (JobPool k m)" by (simp add: mutex_inv_def join_inv_def JobPool_def)
  next
    fix e x x' assume "?P x" "step e x = Some x'"
    then show "?P x'"
      using mutex_step [of x e x'] join_step [of x e x'] after_store_step [of x e x']
      by blast
  qed
  then show ?thesis by simp
qed

lemma destructor_steps:
  assumes "c < length (callers s)" "callers s ! c = D_lock" "queue_mutex s = None"
  shows "\<exists>s'. run [Step c, Step c, Step c, Step c] s = Some s' \<and> stop_flag s'
     \<and> condition s' = [] \<and> callers s' ! c = D_join 0"
  using assms by (simp add: member_step_def c_at_def)

lemma started_dequeued: "ledger s \<Longrightarrow> mset (started s) \<subseteq># mset (dequeued s)"
  by (simp add: ledger_def)

subsection \<open>While the pause flag is set\<close>

lemma paused_step:
  assumes p: "paused s" and st: "step e s = Some s'"
  shows "length (dequeued s') + length (filter past_gate (threads s'))
           \<le> length (dequeued s) + length (filter past_gate (threads s))
       \<and> length (started s') + length (filter before_call (threads s'))
           \<le> length (started s) + length (filter before_call (threads s))"
proof (rule step_preserves [OF _ _ _ _ _ st])
  fix i assume w: "WorkerThread i s = Some s'"
  then have i: "i < length (threads s)"
    by (auto simp: WorkerThread_def split: if_splits)
  show ?thesis
  proof (cases "threads s ! i")
    case W_chk_paused
    with w p i have s': "s' = w_at i W_loop (s\<lparr>queue_mutex := None\<rparr>)"
      by (simp add: WorkerThread_def)
    from count_same [of i "threads s" past_gate W_loop]
      count_same [of i "threads s" before_call W_loop] i W_chk_paused
    show ?thesis by (simp add: s' w_at_def)
  next
    case W_chk_empty
    show ?thesis
    proof (cases "jobs s = []")
      case True
      with W_chk_empty w i
      have s': "s' = w_at i W_loop (s\<lparr>queue_mutex := None\<rparr>)"
        by (simp add: WorkerThread_def)
      from count_leave [of i "threads s" past_gate W_loop]
        count_leave [of i "threads s" before_call W_loop] i W_chk_empty
      show ?thesis by (simp add: s' w_at_def)
    next
      case False
      with W_chk_empty w i have s': "s' = w_at i W_pop s"
        by (simp add: WorkerThread_def)
      from count_same [of i "threads s" past_gate W_pop]
        count_same [of i "threads s" before_call W_pop] i W_chk_empty
      show ?thesis by (simp add: s' w_at_def)
    qed
  next
    case W_pop
    with w obtain j js where j: "jobs s = j # js"
      and s': "s' = w_at i (W_unlock j) (s\<lparr>jobs := js, dequeued := dequeued s @ [j]\<rparr>)"
      using i by (auto simp: WorkerThread_def split: list.splits)
    from count_leave [of i "threads s" past_gate "W_unlock j"]
      count_same [of i "threads s" before_call "W_unlock j"] i W_pop
    show ?thesis by (simp add: s' w_at_def)
  next
    case (W_call j)
    with w i have s': "s' = w_at i (W_run j) (s\<lparr>started := started s @ [j]\<rparr>)"
      by (simp add: WorkerThread_def)
    from count_same [of i "threads s" past_gate "W_run j"]
      count_leave [of i "threads s" before_call "W_run j"] i W_call
    show ?thesis by (simp add: s' w_at_def)
  qed (use w i in \<open>auto simp: WorkerThread_def w_at_def count_same
        split: if_splits list.splits option.splits\<close>)
next
  fix c assume "member_step c s = Some s'"
  then show ?thesis
    by (cases "callers s ! c")
      (auto simp: member_step_def c_at_def split: if_splits list.splits option.splits)
next
  fix c f assume "call c f s = Some s'"
  then show ?thesis by (auto simp: call_def c_at_def split: if_splits)
next
  fix c t assume "notify_one c t s = Some s'"
  then show ?thesis by (auto simp: notify_one_def c_at_def split: if_splits)
next
  fix t assume "spurious t s = Some s'"
  then show ?thesis
    by (cases t) (auto simp: spurious_def c_at_def w_at_def count_same split: if_splits)
qed

lemma paused_run:
  assumes "run_while paused es s = Some s'"
  shows "length (dequeued s') + length (filter past_gate (threads s'))
           \<le> length (dequeued s) + length (filter past_gate (threads s))
       \<and> length (started s') + length (filter before_call (threads s'))
           \<le> length (started s) + length (filter before_call (threads s))"
  using assms
proof (induction es arbitrary: s)
  case Nil
  then show ?case by (simp split: if_splits)
next
  case (Cons e es)
  then obtain s1 where p: "paused s" and s1: "step e s = Some s1"
    and r: "run_while paused es s1 = Some s'"
    by (auto split: if_splits option.splits)
  from paused_step [OF p s1] Cons.IH [OF r] show ?case by linarith
qed

lemma add_job_steps:
  assumes "c < length (callers s)" "callers s ! c = C_idle" "queue_mutex s = None"
  shows "\<exists>s'. run [Call c (AddJob j), Step c, Step c] s = Some s' \<and> jobs s' = jobs s @ [j]
     \<and> paused s' = paused s"
  using assms by (simp add: call_def member_step_def c_at_def)

lemma running_step:
  assumes "i < length (threads s)" "threads s ! i = W_run j"
  shows "\<exists>s'. step (Work i) s = Some s' \<and> finished s' = finished s @ [j]"
  using assms by (simp add: WorkerThread_def w_at_def)

lemma resume_steps:
  assumes "c < length (callers s)" "callers s ! c = R_store"
    and "i < length (threads s)" "threads s ! i = W_loop \<or> threads s ! i = W_blocked"
    and "queue_mutex s = None" "\<not> stop_flag s" "jobs s = j # js"
  shows "\<exists>s'. run [Step c, Step c, Work i, Work i, Work i, Work i, Work i, Work i, Work i] s
       = Some s' \<and> \<not> paused s' \<and> dequeued s' = dequeued s @ [j] \<and> jobs s' = js"
  using assms(4,1-3,5-)
  by (elim disjE) (simp_all add: member_step_def WorkerThread_def c_at_def w_at_def)


lemma grow_step:
  assumes st: "step e s = Some s'"
  shows "(\<exists>ds. dequeued s' = dequeued s @ ds) \<and> (\<exists>js. started s' = started s @ js)"
proof (rule step_preserves [OF _ _ _ _ _ st])
  fix i assume "WorkerThread i s = Some s'"
  then show ?thesis
    by (cases "threads s ! i")
      (auto simp: WorkerThread_def w_at_def split: if_splits list.splits option.splits)
next
  fix c assume "member_step c s = Some s'"
  then show ?thesis
    by (cases "callers s ! c")
      (auto simp: member_step_def c_at_def split: if_splits list.splits option.splits)
next
  fix c f assume "call c f s = Some s'"
  then show ?thesis by (auto simp: call_def c_at_def split: if_splits)
next
  fix c t assume "notify_one c t s = Some s'"
  then show ?thesis by (auto simp: notify_one_def c_at_def split: if_splits)
next
  fix t assume "spurious t s = Some s'"
  then show ?thesis
    by (cases t) (auto simp: spurious_def c_at_def w_at_def split: if_splits)
qed

lemma grow_run_while:
  assumes "run_while P es s = Some s'"
  shows "(\<exists>ds. dequeued s' = dequeued s @ ds) \<and> (\<exists>js. started s' = started s @ js)"
  using assms
proof (induction es arbitrary: s)
  case Nil
  then show ?case by (simp split: if_splits)
next
  case (Cons e es)
  then obtain s1 where s1: "step e s = Some s1" and r: "run_while P es s1 = Some s'"
    by (auto split: if_splits option.splits)
  from grow_step [OF s1] Cons.IH [OF r] show ?case by auto
qed

lemma paused_bound:
  assumes "run_while paused es s = Some s'"
  shows "\<exists>ds js. dequeued s' = dequeued s @ ds
       \<and> length ds \<le> length (filter past_gate (threads s))
       \<and> started s' = started s @ js
       \<and> length js \<le> length (filter before_call (threads s))"
proof -
  from grow_run_while [OF assms] obtain ds js where
    g: "dequeued s' = dequeued s @ ds" "started s' = started s @ js"
    by blast
  from paused_run [OF assms] g
  have "length ds \<le> length (filter past_gate (threads s))"
    "length js \<le> length (filter before_call (threads s))"
    by simp_all
  with g show ?thesis by blast
qed

lemma gate_step:
  assumes "i < length (threads s)" "threads s ! i = W_chk_paused" "paused s"
  shows "step (Work i) s = Some (w_at i W_loop (s\<lparr>queue_mutex := None\<rparr>))"
  using assms by (simp add: WorkerThread_def)

section \<open>The claims\<close>

text \<open>
  Claim C1 at a schedule of one caller and one worker.  The caller submits one job; the
  worker takes it out of the queue and releases the mutex (line 63), but has not yet
  incremented \<^verbatim>\<open>active_jobs_\<close> (line 64); the caller calls \<^verbatim>\<open>WaitForAllJobs\<close>, finds
  the queue empty and the counter zero, and returns normally.  The submitted job has not
  been called.
\<close>

theorem wait_returns_before_job_runs:
  "run (add_job 0 (Job 1 None)
         @ [Work 0, Work 0, Work 0, Work 0, Work 0, Work 0, Work 0, Work 0]
         @ wait_all 0) (JobPool 1 1)
     = Some \<lparr>threads = [W_inc (Job 1 None)], jobs = [], queue_mutex = None,
         condition = [], stop_flag = False, active_jobs = 0, paused = False,
         last_exception = None, callers = [C_idle], submitted = [Job 1 None],
         dequeued = [Job 1 None], started = [], finished = [], recorded = [],
         outcomes = [(0, Returned)]\<rparr>"
  by (simp add: sched_defs)

text \<open>
  Claim C2 at a schedule of two callers and one worker.  Caller 0 is blocked in
  \<^verbatim>\<open>WaitForAllJobs\<close> behind a job that caller 1 has submitted.  The worker takes the job
  and releases the mutex; caller 1's \<^verbatim>\<open>notify_one\<close> wakes caller 0, which takes the
  mutex.  In the state reached the worker holds a dequeued job that it has not run, the
  drained predicate holds, and caller 0 leaves the wait.
\<close>

theorem drained_with_job_in_hand:
  "run ([Call 1 (AddJob (Job 1 None)), Step 1, Step 1, Step 1]
         @ [Call 0 WaitForAllJobs, Step 0, Step 0, Step 0]
         @ [Work 0, Work 0, Work 0, Work 0, Work 0, Work 0, Work 0, Work 0]
         @ [Notify_one 1 (Caller 0), Step 0, Step 0]) (JobPool 1 2)
     = Some \<lparr>threads = [W_inc (Job 1 None)], jobs = [], queue_mutex = Some (Caller 0),
         condition = [], stop_flag = False, active_jobs = 0, paused = False,
         last_exception = None, callers = [J_wait, C_idle], submitted = [Job 1 None],
         dequeued = [Job 1 None], started = [], finished = [], recorded = [],
         outcomes = []\<rparr>
   \<and> drained \<lparr>threads = [W_inc (Job 1 None)], jobs = [], queue_mutex = Some (Caller 0),
         condition = [], stop_flag = False, active_jobs = 0, paused = False,
         last_exception = None, callers = [J_wait, C_idle], submitted = [Job 1 None],
         dequeued = [Job 1 None], started = [], finished = [], recorded = [],
         outcomes = []\<rparr>
   \<and> step (Step 0) \<lparr>threads = [W_inc (Job 1 None)], jobs = [], queue_mutex = Some (Caller 0),
         condition = [], stop_flag = False, active_jobs = 0, paused = False,
         last_exception = None, callers = [J_wait, C_idle], submitted = [Job 1 None],
         dequeued = [Job 1 None], started = [], finished = [], recorded = [],
         outcomes = []\<rparr>
     = Some \<lparr>threads = [W_inc (Job 1 None)], jobs = [], queue_mutex = Some (Caller 0),
         condition = [], stop_flag = False, active_jobs = 0, paused = False,
         last_exception = None, callers = [J_chk_exc, C_idle], submitted = [Job 1 None],
         dequeued = [Job 1 None], started = [], finished = [], recorded = [],
         outcomes = []\<rparr>"
  by (simp add: sched_defs replicate_2)

subsection \<open>The number of running jobs\<close>

text \<open>
  Claim C3.  In every state that a pool constructed with \<open>k\<close> workers can reach (\<open>k\<close> a
  \<^verbatim>\<open>size_t\<close>), the pool has \<open>k\<close> workers, each with at most one job, so at most \<open>k\<close>
  jobs are in the \<open>Running\<close> state; the counter that \<^verbatim>\<open>GetActiveJobCount\<close> reads is
  the number of workers between the increment and the decrement, and is at most \<open>k\<close>
  as well.
\<close>

theorem concurrency_bound:
  assumes "k < 2 ^ 64" "run es (JobPool k m) = Some s"
  shows "GetThreadCount s = k
       \<and> length (filter Running (threads s)) \<le> k
       \<and> GetActiveJobCount s = length (filter counted (threads s))
       \<and> GetActiveJobCount s \<le> k"
proof -
  from length_run [OF assms(2)] have k: "length (threads s) = k"
    by (simp add: JobPool_def)
  have le: "length (filter P (threads s)) \<le> k" for P
    unfolding k [symmetric] by simp
  from active_run [OF assms] have "active_jobs s = length (filter counted (threads s))"
    by (simp add: active_inv_def)
  with le [of Running] le [of counted] k show ?thesis
    by (simp add: GetActiveJobCount_def GetThreadCount_def)
qed


theorem concurrency_bound_witness:
  "(2::nat) < 2 ^ 64 \<and>
   (\<exists>s. run [Call 0 (AddJobs [Job 1 None, Job 2 None]), Step 0, Step 0, Step 0, Step 0,
             Step 0, Step 0,
             Work 0, Work 0, Work 0, Work 0, Work 0, Work 0, Work 0, Work 0, Work 0, Work 0,
             Work 1, Work 1, Work 1, Work 1, Work 1, Work 1, Work 1, Work 1, Work 1, Work 1]
          (JobPool 2 1) = Some s
      \<and> threads s = [W_run (Job 1 None), W_run (Job 2 None)]
      \<and> GetThreadCount s = 2
      \<and> length (filter Running (threads s)) \<le> 2 \<and> GetActiveJobCount s = 2)"
proof -
  obtain s where s: "run [Call 0 (AddJobs [Job 1 None, Job 2 None]), Step 0, Step 0, Step 0,
             Step 0, Step 0, Step 0,
             Work 0, Work 0, Work 0, Work 0, Work 0, Work 0, Work 0, Work 0, Work 0, Work 0,
             Work 1, Work 1, Work 1, Work 1, Work 1, Work 1, Work 1, Work 1, Work 1, Work 1]
          (JobPool 2 1) = Some s"
    and t: "threads s = [W_run (Job 1 None), W_run (Job 2 None)]"
    by (simp add: JobPool_def step_defs size_t_incr_def replicate_2)
  have k: "(2::nat) < 2 ^ 64" by simp
  from concurrency_bound [OF k s] s t k show ?thesis by simp
qed

text \<open>
  Claim C4, as the code has it.  \<^verbatim>\<open>Pause\<close> stores the flag without taking the mutex,
  and the flag is a gate at line 59 only.  A worker that reads the flag as set there
  releases the mutex and goes back to the head of its loop without touching the queue.
  Over any stretch of execution throughout which the flag is set, the jobs taken out of
  the queue are at most as many as the workers that had passed line 59 (and not yet taken
  their job) at its start, and the jobs called at most as many as the workers that had
  passed line 59 and not yet called their job.  A worker inside a job finishes it;
  \<^verbatim>\<open>AddJob\<close> appends to the queue whatever the flag; and after the store of
  \<^verbatim>\<open>Resume\<close> a worker at the head of its loop, or blocked, takes the first job of
  the queue.
\<close>

theorem pause_gate:
  "(i < length (threads s) \<and> threads s ! i = W_chk_paused \<and> paused s \<longrightarrow>
      step (Work i) s = Some (w_at i W_loop (s\<lparr>queue_mutex := None\<rparr>)))
   \<and> (run_while paused es s = Some s' \<longrightarrow>
      (\<exists>ds js. dequeued s' = dequeued s @ ds
         \<and> length ds \<le> length (filter past_gate (threads s))
         \<and> started s' = started s @ js
         \<and> length js \<le> length (filter before_call (threads s))))
   \<and> (i < length (threads s) \<and> threads s ! i = W_run j \<longrightarrow>
      (\<exists>s'. step (Work i) s = Some s' \<and> finished s' = finished s @ [j]))
   \<and> (c < length (callers s) \<and> callers s ! c = C_idle \<and> queue_mutex s = None \<longrightarrow>
      (\<exists>s'. run [Call c (AddJob j), Step c, Step c] s = Some s' \<and> jobs s' = jobs s @ [j]
         \<and> paused s' = paused s))
   \<and> (c < length (callers s) \<and> callers s ! c = R_store \<and> i < length (threads s)
       \<and> (threads s ! i = W_loop \<or> threads s ! i = W_blocked)
       \<and> queue_mutex s = None \<and> \<not> stop_flag s \<and> jobs s = j # js \<longrightarrow>
      (\<exists>s'. run [Step c, Step c, Work i, Work i, Work i, Work i, Work i, Work i, Work i] s
           = Some s' \<and> \<not> paused s' \<and> dequeued s' = dequeued s @ [j] \<and> jobs s' = js))"
proof (intro conjI impI)
  assume "i < length (threads s) \<and> threads s ! i = W_chk_paused \<and> paused s"
  then show "step (Work i) s = Some (w_at i W_loop (s\<lparr>queue_mutex := None\<rparr>))"
    by (intro gate_step) simp_all
next
  assume "run_while paused es s = Some s'"
  then show "\<exists>ds js. dequeued s' = dequeued s @ ds
         \<and> length ds \<le> length (filter past_gate (threads s))
         \<and> started s' = started s @ js
         \<and> length js \<le> length (filter before_call (threads s))"
    by (rule paused_bound)
next
  assume "i < length (threads s) \<and> threads s ! i = W_run j"
  then show "\<exists>s'. step (Work i) s = Some s' \<and> finished s' = finished s @ [j]"
    by (intro running_step) simp_all
next
  assume "c < length (callers s) \<and> callers s ! c = C_idle \<and> queue_mutex s = None"
  then show "\<exists>s'. run [Call c (AddJob j), Step c, Step c] s = Some s' \<and> jobs s' = jobs s @ [j]
         \<and> paused s' = paused s"
    by (intro add_job_steps) simp_all
next
  assume "c < length (callers s) \<and> callers s ! c = R_store \<and> i < length (threads s)
       \<and> (threads s ! i = W_loop \<or> threads s ! i = W_blocked)
       \<and> queue_mutex s = None \<and> \<not> stop_flag s \<and> jobs s = j # js"
  then show "\<exists>s'. run [Step c, Step c, Work i, Work i, Work i, Work i, Work i, Work i, Work i] s
           = Some s' \<and> \<not> paused s' \<and> dequeued s' = dequeued s @ [j] \<and> jobs s' = js"
    by (intro resume_steps) simp_all
qed


theorem pause_gate_witness:
  "(\<exists>s s'. run (add_job 0 (Job 1 None) @ [Call 0 Pause, Step 0]
                @ [Work 0, Work 0, Work 0, Work 0]) (JobPool 1 1) = Some s
       \<and> threads s ! 0 = W_chk_paused \<and> paused s
       \<and> step (Work 0) s = Some s' \<and> threads s' ! 0 = W_loop \<and> jobs s' = [Job 1 None]
       \<and> dequeued s' = [])
   \<and> (\<exists>s s'. run (add_job 0 (Job 1 None) @ [Call 0 Pause, Step 0]
                @ [Work 0, Work 0, Work 0, Work 0]) (JobPool 1 1) = Some s
       \<and> run_while paused ([Work 0] @ add_job 0 (Job 2 None)
                @ [Work 0, Work 0, Work 0, Work 0, Work 0]) s = Some s'
       \<and> jobs s' = [Job 1 None, Job 2 None] \<and> dequeued s' = dequeued s
       \<and> started s' = started s)
   \<and> (\<exists>s s'. run (add_job 0 (Job 1 None)
                @ [Work 0, Work 0, Work 0, Work 0, Work 0, Work 0, Work 0, Work 0, Work 0,
                   Work 0]
                @ [Call 0 Pause, Step 0]) (JobPool 1 1) = Some s
       \<and> paused s \<and> threads s ! 0 = W_run (Job 1 None)
       \<and> step (Work 0) s = Some s' \<and> finished s' = [Job 1 None])
   \<and> (\<exists>s s'. run [Call 0 Pause, Step 0] (JobPool 1 1) = Some s \<and> paused s
       \<and> run [Call 0 (AddJob (Job 1 None)), Step 0, Step 0] s = Some s'
       \<and> jobs s' = [Job 1 None] \<and> paused s')
   \<and> (\<exists>s s'. run ([Call 0 Pause, Step 0] @ add_job 0 (Job 1 None) @ [Call 0 Resume])
          (JobPool 1 1) = Some s
       \<and> paused s \<and> callers s ! 0 = R_store \<and> threads s ! 0 = W_loop
       \<and> run [Step 0, Step 0, Work 0, Work 0, Work 0, Work 0, Work 0, Work 0, Work 0] s
            = Some s'
       \<and> \<not> paused s' \<and> dequeued s' = [Job 1 None] \<and> jobs s' = [])"
proof -
  note g1 = pause_gate [THEN conjunct1, THEN mp]
  note g2 = pause_gate [THEN conjunct2, THEN conjunct1, THEN mp]
  note g3 = pause_gate [THEN conjunct2, THEN conjunct2, THEN conjunct1, THEN mp]
  note g4 = pause_gate [THEN conjunct2, THEN conjunct2, THEN conjunct2, THEN conjunct1, THEN mp]
  note g5 = pause_gate [THEN conjunct2, THEN conjunct2, THEN conjunct2, THEN conjunct2, THEN mp]
  show ?thesis
  proof (intro conjI)
  obtain s where s: "run (add_job 0 (Job 1 None) @ [Call 0 Pause, Step 0]
                @ [Work 0, Work 0, Work 0, Work 0]) (JobPool 1 1) = Some s"
    and h: "0 < length (threads s)" "threads s ! 0 = W_chk_paused" "paused s"
      "jobs s = [Job 1 None]" "dequeued s = []"
    by (simp add: sched_defs)
  have "step (Work 0) s = Some (w_at 0 W_loop (s\<lparr>queue_mutex := None\<rparr>))"
    by (rule g1) (use h in simp)
  moreover from h
  have "threads (w_at 0 W_loop (s\<lparr>queue_mutex := None\<rparr>)) ! 0 = W_loop"
    "jobs (w_at 0 W_loop (s\<lparr>queue_mutex := None\<rparr>)) = [Job 1 None]"
    "dequeued (w_at 0 W_loop (s\<lparr>queue_mutex := None\<rparr>)) = []"
    by (simp_all add: w_at_def)
  ultimately show "\<exists>s s'. run (add_job 0 (Job 1 None) @ [Call 0 Pause, Step 0]
                @ [Work 0, Work 0, Work 0, Work 0]) (JobPool 1 1) = Some s
       \<and> threads s ! 0 = W_chk_paused \<and> paused s
       \<and> step (Work 0) s = Some s' \<and> threads s' ! 0 = W_loop \<and> jobs s' = [Job 1 None]
       \<and> dequeued s' = []"
    using s h by blast
next
  let ?S = "\<lparr>threads = [W_chk_paused], jobs = [Job 1 None], queue_mutex = Some (Worker 0),
         condition = [], stop_flag = False, active_jobs = 0, paused = True,
         last_exception = None, callers = [C_idle], submitted = [Job 1 None], dequeued = [],
         started = [], finished = [], recorded = [], outcomes = []\<rparr>"
  have s: "run (add_job 0 (Job 1 None) @ [Call 0 Pause, Step 0]
                @ [Work 0, Work 0, Work 0, Work 0]) (JobPool 1 1) = Some ?S"
    by (simp add: sched_defs)
  obtain s' where s': "run_while paused ([Work 0] @ add_job 0 (Job 2 None)
                @ [Work 0, Work 0, Work 0, Work 0, Work 0]) ?S = Some s'"
    and h: "jobs s' = [Job 1 None, Job 2 None]"
    by (simp add: sched_defs)
  from g2 [OF s']
  obtain ds js where "dequeued s' = dequeued ?S @ ds"
    "length ds \<le> length (filter past_gate (threads ?S))"
    "started s' = started ?S @ js"
    "length js \<le> length (filter before_call (threads ?S))"
    by blast
  then have "dequeued s' = dequeued ?S" "started s' = started ?S"
    by simp_all
  with s s' h show "\<exists>s s'. run (add_job 0 (Job 1 None) @ [Call 0 Pause, Step 0]
                @ [Work 0, Work 0, Work 0, Work 0]) (JobPool 1 1) = Some s
       \<and> run_while paused ([Work 0] @ add_job 0 (Job 2 None)
                @ [Work 0, Work 0, Work 0, Work 0, Work 0]) s = Some s'
       \<and> jobs s' = [Job 1 None, Job 2 None] \<and> dequeued s' = dequeued s
       \<and> started s' = started s"
    by blast
next
  obtain s where s: "run (add_job 0 (Job 1 None)
                @ [Work 0, Work 0, Work 0, Work 0, Work 0, Work 0, Work 0, Work 0, Work 0,
                   Work 0]
                @ [Call 0 Pause, Step 0]) (JobPool 1 1) = Some s"
    and h: "0 < length (threads s)" "threads s ! 0 = W_run (Job 1 None)" "paused s"
      "finished s = []"
    by (simp add: sched_defs)
  have "\<exists>s'. step (Work 0) s = Some s' \<and> finished s' = finished s @ [Job 1 None]"
    by (rule g3) (use h in simp)
  then obtain s' where "step (Work 0) s = Some s'" "finished s' = finished s @ [Job 1 None]"
    by blast
  with s h show "\<exists>s s'. run (add_job 0 (Job 1 None)
                @ [Work 0, Work 0, Work 0, Work 0, Work 0, Work 0, Work 0, Work 0, Work 0,
                   Work 0]
                @ [Call 0 Pause, Step 0]) (JobPool 1 1) = Some s
       \<and> paused s \<and> threads s ! 0 = W_run (Job 1 None)
       \<and> step (Work 0) s = Some s' \<and> finished s' = [Job 1 None]"
    by (intro exI [of _ s] exI [of _ s']) simp
next
  obtain s where s: "run [Call 0 Pause, Step 0] (JobPool 1 1) = Some s"
    and h: "0 < length (callers s)" "callers s ! 0 = C_idle" "queue_mutex s = None"
      "paused s" "jobs s = []"
    by (simp add: sched_defs)
  have "\<exists>s'. run [Call 0 (AddJob (Job 1 None)), Step 0, Step 0] s = Some s'
      \<and> jobs s' = jobs s @ [Job 1 None] \<and> paused s' = paused s"
    by (rule g4) (use h in simp)
  then obtain s' where "run [Call 0 (AddJob (Job 1 None)), Step 0, Step 0] s = Some s'"
    "jobs s' = jobs s @ [Job 1 None]" "paused s' = paused s"
    by blast
  with s h show "\<exists>s s'. run [Call 0 Pause, Step 0] (JobPool 1 1) = Some s \<and> paused s
       \<and> run [Call 0 (AddJob (Job 1 None)), Step 0, Step 0] s = Some s'
       \<and> jobs s' = [Job 1 None] \<and> paused s'"
    by (intro exI [of _ s] exI [of _ s']) simp
next
  obtain s where s: "run ([Call 0 Pause, Step 0] @ add_job 0 (Job 1 None) @ [Call 0 Resume])
          (JobPool 1 1) = Some s"
    and h: "0 < length (callers s)" "callers s ! 0 = R_store" "0 < length (threads s)"
      "threads s ! 0 = W_loop" "queue_mutex s = None" "\<not> stop_flag s"
      "jobs s = [Job 1 None]" "paused s" "dequeued s = []"
    by (simp add: sched_defs)
  have "\<exists>s'. run [Step 0, Step 0, Work 0, Work 0, Work 0, Work 0, Work 0, Work 0, Work 0] s
      = Some s' \<and> \<not> paused s' \<and> dequeued s' = dequeued s @ [Job 1 None] \<and> jobs s' = []"
    by (rule g5) (use h in simp)
  then obtain s' where
    "run [Step 0, Step 0, Work 0, Work 0, Work 0, Work 0, Work 0, Work 0, Work 0] s = Some s'"
    "\<not> paused s'" "dequeued s' = dequeued s @ [Job 1 None]" "jobs s' = []"
    by blast
  with s h show "\<exists>s s'. run ([Call 0 Pause, Step 0] @ add_job 0 (Job 1 None) @ [Call 0 Resume])
          (JobPool 1 1) = Some s
       \<and> paused s \<and> callers s ! 0 = R_store \<and> threads s ! 0 = W_loop
       \<and> run [Step 0, Step 0, Work 0, Work 0, Work 0, Work 0, Work 0, Work 0, Work 0] s
            = Some s'
       \<and> \<not> paused s' \<and> dequeued s' = [Job 1 None] \<and> jobs s' = []"
    by (intro exI [of _ s] exI [of _ s']) simp
qed
qed

text \<open>
  Claim C4 as stated fails.  One caller, one worker: the worker reads \<^verbatim>\<open>paused_\<close> as
  clear in line 59; the caller then calls \<^verbatim>\<open>Pause\<close>, which returns; with the flag
  set throughout, the worker takes the job out of the queue and calls it.
\<close>

theorem pause_counterexample:
  "run (add_job 0 (Job 1 None) @ [Work 0, Work 0, Work 0, Work 0, Work 0]
         @ [Call 0 Pause, Step 0]) (JobPool 1 1)
     = Some \<lparr>threads = [W_chk_empty], jobs = [Job 1 None], queue_mutex = Some (Worker 0),
         condition = [], stop_flag = False, active_jobs = 0, paused = True,
         last_exception = None, callers = [C_idle], submitted = [Job 1 None], dequeued = [],
         started = [], finished = [], recorded = [], outcomes = []\<rparr>
   \<and> run_while paused [Work 0, Work 0, Work 0, Work 0, Work 0]
       \<lparr>threads = [W_chk_empty], jobs = [Job 1 None], queue_mutex = Some (Worker 0),
         condition = [], stop_flag = False, active_jobs = 0, paused = True,
         last_exception = None, callers = [C_idle], submitted = [Job 1 None], dequeued = [],
         started = [], finished = [], recorded = [], outcomes = []\<rparr>
     = Some \<lparr>threads = [W_run (Job 1 None)], jobs = [], queue_mutex = None,
         condition = [], stop_flag = False, active_jobs = 1, paused = True,
         last_exception = None, callers = [C_idle], submitted = [Job 1 None],
         dequeued = [Job 1 None], started = [Job 1 None], finished = [], recorded = [],
         outcomes = []\<rparr>"
  by (simp add: sched_defs)

text \<open>
  Claim C5 at a schedule of one caller and two workers.  The caller submits two jobs that
  throw.  Each worker takes one, runs it, catches its exception and begins the assignment
  of line 68.  In the state reached both workers are in the middle of assigning to
  \<^verbatim>\<open>last_exception_\<close>, a plain \<^verbatim>\<open>std::exception_ptr\<close>, and neither holds the mutex: a
  data race, after which the C++ standard promises neither that the workers go on nor
  that the other jobs run.
\<close>

theorem handlers_store_at_once:
  "run (add_job 0 (Job 1 (Some 7)) @ add_job 0 (Job 2 (Some 9))
         @ [Work 0, Work 0, Work 0, Work 0, Work 0, Work 0, Work 0, Work 0, Work 0, Work 0,
            Work 0, Work 0]
         @ [Work 1, Work 1, Work 1, Work 1, Work 1, Work 1, Work 1, Work 1, Work 1, Work 1,
            Work 1, Work 1]) (JobPool 2 1)
     = Some \<lparr>threads = [W_store 7, W_store 9], jobs = [], queue_mutex = None,
         condition = [], stop_flag = False, active_jobs = 2, paused = False,
         last_exception = None, callers = [C_idle],
         submitted = [Job 1 (Some 7), Job 2 (Some 9)],
         dequeued = [Job 1 (Some 7), Job 2 (Some 9)],
         started = [Job 1 (Some 7), Job 2 (Some 9)],
         finished = [Job 1 (Some 7), Job 2 (Some 9)], recorded = [], outcomes = []\<rparr>
   \<and> slot_race \<lparr>threads = [W_store 7, W_store 9], jobs = [], queue_mutex = None,
         condition = [], stop_flag = False, active_jobs = 2, paused = False,
         last_exception = None, callers = [C_idle],
         submitted = [Job 1 (Some 7), Job 2 (Some 9)],
         dequeued = [Job 1 (Some 7), Job 2 (Some 9)],
         started = [Job 1 (Some 7), Job 2 (Some 9)],
         finished = [Job 1 (Some 7), Job 2 (Some 9)], recorded = [], outcomes = []\<rparr>"
  by (simp add: sched_defs replicate_2)
text \<open>
  Claim C6 at a schedule of one caller and one worker.  The caller submits a job that
  throws.  The worker takes it and releases the mutex; the caller calls
  \<^verbatim>\<open>WaitForAllJobs\<close>, finds the pool drained and goes on to line 31; the worker runs the
  job, catches its exception and begins the assignment of line 68.  In the state reached
  the caller's read of \<^verbatim>\<open>last_exception_\<close> is due while the worker's assignment to it
  is in progress: a data race.  If the read is taken to see the slot as it was before
  the assignment, the call returns normally although a job has raised.
\<close>

theorem wait_reads_slot_during_store:
  "run (add_job 0 (Job 1 (Some 7))
         @ [Work 0, Work 0, Work 0, Work 0, Work 0, Work 0, Work 0, Work 0]
         @ [Call 0 WaitForAllJobs, Step 0, Step 0]
         @ [Work 0, Work 0, Work 0, Work 0]) (JobPool 1 1)
     = Some \<lparr>threads = [W_store 7], jobs = [], queue_mutex = Some (Caller 0),
         condition = [], stop_flag = False, active_jobs = 1, paused = False,
         last_exception = None, callers = [J_chk_exc], submitted = [Job 1 (Some 7)],
         dequeued = [Job 1 (Some 7)], started = [Job 1 (Some 7)],
         finished = [Job 1 (Some 7)], recorded = [], outcomes = []\<rparr>
   \<and> slot_race \<lparr>threads = [W_store 7], jobs = [], queue_mutex = Some (Caller 0),
         condition = [], stop_flag = False, active_jobs = 1, paused = False,
         last_exception = None, callers = [J_chk_exc], submitted = [Job 1 (Some 7)],
         dequeued = [Job 1 (Some 7)], started = [Job 1 (Some 7)],
         finished = [Job 1 (Some 7)], recorded = [], outcomes = []\<rparr>
   \<and> run [Step 0, Step 0]
       \<lparr>threads = [W_store 7], jobs = [], queue_mutex = Some (Caller 0),
         condition = [], stop_flag = False, active_jobs = 1, paused = False,
         last_exception = None, callers = [J_chk_exc], submitted = [Job 1 (Some 7)],
         dequeued = [Job 1 (Some 7)], started = [Job 1 (Some 7)],
         finished = [Job 1 (Some 7)], recorded = [], outcomes = []\<rparr>
     = Some \<lparr>threads = [W_store 7], jobs = [], queue_mutex = None,
         condition = [], stop_flag = False, active_jobs = 1, paused = False,
         last_exception = None, callers = [C_idle], submitted = [Job 1 (Some 7)],
         dequeued = [Job 1 (Some 7)], started = [Job 1 (Some 7)],
         finished = [Job 1 (Some 7)], recorded = [], outcomes = [(0, Returned)]\<rparr>"
  by (simp add: sched_defs)
text \<open>
  Claim C7.  The destructor, once it has the mutex, sets the stopping flag and empties
  the set of threads blocked on the condition variable; it has returned only in states
  where the flag is set and every worker has left \<^verbatim>\<open>WorkerThread\<close>; and from a state
  in which the flag is set, no schedule takes a job out of the queue: the jobs queued then
  stay queued, and every job ever called had been dequeued before.
\<close>

theorem teardown:
  assumes "run es (JobPool k m) = Some s" "c < length (callers s)"
  shows "(callers s ! c = D_lock \<and> queue_mutex s = None \<longrightarrow>
           (\<exists>s'. run [Step c, Step c, Step c, Step c] s = Some s' \<and> stop_flag s'
              \<and> condition s' = [] \<and> callers s' ! c = D_join 0))
       \<and> (callers s ! c = C_destroyed \<longrightarrow>
           stop_flag s \<and> (\<forall>i<length (threads s). threads s ! i = W_exited))
       \<and> (stop_flag s \<and> run es' s = Some s' \<longrightarrow>
           stop_flag s' \<and> dequeued s' = dequeued s \<and> (\<exists>js. jobs s' = jobs s @ js)
           \<and> mset (started s') \<subseteq># mset (dequeued s))"
proof (intro conjI impI)
  assume a: "callers s ! c = D_lock \<and> queue_mutex s = None"
  from destructor_steps [OF assms(2) conjunct1 [OF a] conjunct2 [OF a]]
  show "\<exists>s'. run [Step c, Step c, Step c, Step c] s = Some s' \<and> stop_flag s'
     \<and> condition s' = [] \<and> callers s' ! c = D_join 0" .
next
  assume d: "callers s ! c = C_destroyed"
  with destructor_run [OF assms(1)] assms(2) show "stop_flag s" by auto
  from d destructor_run [OF assms(1)] assms(2)
  show "\<forall>i<length (threads s). threads s ! i = W_exited"
    unfolding join_inv_def by blast
next
  assume a: "stop_flag s \<and> run es' s = Some s'"
  from stop_run [OF assms(1)] have "mutex_inv s" "stop_inv s" by simp_all
  from this conjunct1 [OF a] conjunct2 [OF a]
  have st: "stop_flag s' \<and> dequeued s' = dequeued s \<and> (\<exists>js. jobs s' = jobs s @ js)"
    by (rule stopped_run)
  then show "stop_flag s'" "dequeued s' = dequeued s" "\<exists>js. jobs s' = jobs s @ js"
    by simp_all
  from assms(1) a have "run (es @ es') (JobPool k m) = Some s'"
    by (simp add: run_append)
  from started_dequeued [OF ledger_run [OF this]] st
  show "mset (started s') \<subseteq># mset (dequeued s)" by simp
qed



theorem teardown_witness:
  "(\<exists>s s'. run [Call 0 (AddJob (Job 1 None)), Step 0, Step 0, Step 0, Step 0, Call 0 Destroy]
        (JobPool 1 1) = Some s
      \<and> callers s ! 0 = D_lock \<and> queue_mutex s = None
      \<and> run [Step 0, Step 0, Step 0, Step 0] s = Some s'
      \<and> stop_flag s' \<and> condition s' = [] \<and> callers s' ! 0 = D_join 0)
   \<and> (\<exists>s. run [Call 0 (AddJob (Job 1 None)), Step 0, Step 0, Step 0, Step 0, Call 0 Destroy,
          Step 0, Step 0, Step 0, Step 0, Work 0, Step 0, Step 0] (JobPool 1 1) = Some s
      \<and> callers s ! 0 = C_destroyed \<and> stop_flag s \<and> threads s ! 0 = W_exited
      \<and> jobs s = [Job 1 None] \<and> started s = [])
   \<and> (\<exists>s s'. run [Call 0 (AddJob (Job 1 None)), Step 0, Step 0, Step 0, Step 0, Call 0 Destroy,
          Step 0, Step 0] (JobPool 1 1) = Some s
      \<and> stop_flag s \<and> jobs s = [Job 1 None]
      \<and> run [Step 0, Step 0, Work 0, Step 0, Step 0] s = Some s'
      \<and> stop_flag s' \<and> dequeued s' = dequeued s \<and> jobs s' = [Job 1 None]
      \<and> mset (started s') \<subseteq># mset (dequeued s))"
proof (intro conjI)
  obtain s where s: "run [Call 0 (AddJob (Job 1 None)), Step 0, Step 0, Step 0, Step 0,
      Call 0 Destroy] (JobPool 1 1) = Some s"
    and h: "0 < length (callers s)" "callers s ! 0 = D_lock" "queue_mutex s = None"
    by (simp add: JobPool_def step_defs)
  from teardown [OF s h(1)] h(2,3)
  obtain s' where "run [Step 0, Step 0, Step 0, Step 0] s = Some s'" "stop_flag s'"
    "condition s' = []" "callers s' ! 0 = D_join 0"
    by blast
  with s h
  show "\<exists>s s'. run [Call 0 (AddJob (Job 1 None)), Step 0, Step 0, Step 0, Step 0, Call 0 Destroy]
        (JobPool 1 1) = Some s
      \<and> callers s ! 0 = D_lock \<and> queue_mutex s = None
      \<and> run [Step 0, Step 0, Step 0, Step 0] s = Some s'
      \<and> stop_flag s' \<and> condition s' = [] \<and> callers s' ! 0 = D_join 0"
    by blast
next
  obtain s where s: "run [Call 0 (AddJob (Job 1 None)), Step 0, Step 0, Step 0, Step 0,
      Call 0 Destroy, Step 0, Step 0, Step 0, Step 0, Work 0, Step 0, Step 0] (JobPool 1 1)
      = Some s"
    and h: "0 < length (callers s)" "callers s ! 0 = C_destroyed" "0 < length (threads s)"
      "jobs s = [Job 1 None]" "started s = []"
    by (simp add: JobPool_def step_defs)
  from teardown [OF s h(1)] h(2)
  have "stop_flag s" "\<forall>i<length (threads s). threads s ! i = W_exited"
    by blast+
  with h(3) have "stop_flag s" "threads s ! 0 = W_exited" by blast+
  with s h
  show "\<exists>s. run [Call 0 (AddJob (Job 1 None)), Step 0, Step 0, Step 0, Step 0,
          Call 0 Destroy, Step 0, Step 0, Step 0, Step 0, Work 0, Step 0, Step 0] (JobPool 1 1)
          = Some s
      \<and> callers s ! 0 = C_destroyed \<and> stop_flag s \<and> threads s ! 0 = W_exited
      \<and> jobs s = [Job 1 None] \<and> started s = []"
    by blast
next
  obtain s where s: "run [Call 0 (AddJob (Job 1 None)), Step 0, Step 0, Step 0, Step 0,
      Call 0 Destroy, Step 0, Step 0] (JobPool 1 1) = Some s"
    and h: "0 < length (callers s)" "stop_flag s" "jobs s = [Job 1 None]"
    by (simp add: JobPool_def step_defs)
  obtain s' where s': "run ([Call 0 (AddJob (Job 1 None)), Step 0, Step 0, Step 0, Step 0,
      Call 0 Destroy, Step 0, Step 0] @ [Step 0, Step 0, Work 0, Step 0, Step 0]) (JobPool 1 1)
      = Some s'"
    and h': "jobs s' = [Job 1 None]"
    by (simp add: JobPool_def step_defs)
  from s' have r: "run [Step 0, Step 0, Work 0, Step 0, Step 0] s = Some s'"
    by (simp only: run_append s option.case)
  from teardown [OF s h(1), of "[Step 0, Step 0, Work 0, Step 0, Step 0]" s'] h(2) r
  have "stop_flag s'" "dequeued s' = dequeued s" "mset (started s') \<subseteq># mset (dequeued s)"
    by blast+
  with s r h h'
  show "\<exists>s s'. run [Call 0 (AddJob (Job 1 None)), Step 0, Step 0, Step 0, Step 0,
          Call 0 Destroy, Step 0, Step 0] (JobPool 1 1) = Some s
      \<and> stop_flag s \<and> jobs s = [Job 1 None]
      \<and> run [Step 0, Step 0, Work 0, Step 0, Step 0] s = Some s'
      \<and> stop_flag s' \<and> dequeued s' = dequeued s \<and> jobs s' = [Job 1 None]
      \<and> mset (started s') \<subseteq># mset (dequeued s)"
    by blast
qed

text \<open>
  Claim C8.  In every state the pool can reach, the jobs in the order they were put into
  the queue are the jobs in the order the workers took them out, followed by the queue:
  jobs leave the queue in exactly the order they entered it, whatever the order in which
  they finish.
\<close>

theorem fifo_order:
  assumes "run es (JobPool k m) = Some s"
  shows "submitted s = dequeued s @ jobs s"
  using assms by (rule fifo_run)

theorem fifo_order_witness:
  "\<exists>s. run [Call 0 (AddJob (Job 1 None)), Step 0, Step 0, Step 0, Step 0,
             Call 0 (AddJob (Job 2 None)), Step 0, Step 0, Step 0, Step 0,
             Work 0, Work 0, Work 0, Work 0, Work 0, Work 0, Work 0] (JobPool 1 1) = Some s
       \<and> submitted s = [Job 1 None, Job 2 None] \<and> dequeued s = [Job 1 None]
       \<and> jobs s = [Job 2 None]"
proof -
  obtain s where s: "run [Call 0 (AddJob (Job 1 None)), Step 0, Step 0, Step 0, Step 0,
             Call 0 (AddJob (Job 2 None)), Step 0, Step 0, Step 0, Step 0,
             Work 0, Work 0, Work 0, Work 0, Work 0, Work 0, Work 0] (JobPool 1 1) = Some s"
    and d: "dequeued s = [Job 1 None]" "jobs s = [Job 2 None]"
    by (simp add: JobPool_def step_defs)
  from fifo_order [OF s] d s show ?thesis by simp
qed

subsection \<open>The text of an address\<close>

lemma decimal_digit: "decimal n \<noteq> [] \<and> hd (decimal n) \<in> set ''0123456789''"
proof (induction n rule: decimal.induct)
  case (1 n)
  show ?case
  proof (cases "n < 10")
    case True
    then have "n \<in> {0, 1, 2, 3, 4, 5, 6, 7, 8, 9}" by auto
    then show ?thesis by (subst (1 2) decimal.simps) (auto simp: True)
  next
    case False
    with 1 show ?thesis by (subst (1 2) decimal.simps) (simp add: hd_append)
  qed
qed

lemma lead_char_hex: "lead_char l \<in> set ''0123456789abcdef:''"
proof (cases l)
  case (Hex n)
  have "unat n < 2 ^ LENGTH(4)" by (rule unsigned_less)
  then have "unat n < length ''0123456789abcdef''" by simp
  then have "''0123456789abcdef'' ! unat n \<in> set ''0123456789abcdef''"
    by (rule nth_mem)
  then show ?thesis by (auto simp: Hex)
next
  case Colon
  then show ?thesis by simp
qed

lemma address_text:
  "to_string a \<noteq> ''No results'' \<and> (\<forall>what. to_string a \<noteq> ''Error: '' @ what)"
proof (cases a)
  case (V4 p q r t)
  obtain x xs where d: "decimal (unat p) = x # xs" and x: "x \<in> set ''0123456789''"
    using decimal_digit [of "unat p"] by (cases "decimal (unat p)") auto
  from x show ?thesis by (auto simp: V4 d)
next
  case (V6 l rest)
  from lead_char_hex [of l] show ?thesis by (auto simp: V6)
qed

text \<open>
  Claim C9, as the code has it.  When the lookup returns results, the handle yields the
  text of the address of the first one, whatever that address is; when it returns none,
  \<open>No results\<close>; when it raises \<^verbatim>\<open>boost::system::system_error\<close>, \<open>Error: \<close> followed by
  the message of the error.  An exception of any other type is not caught and leaves
  through the handle.  The text of an address is neither \<open>No results\<close> nor begins
  with \<open>Error: \<close>, and \<open>No results\<close> does not begin with \<open>Error: \<close>: the three
  strings are told apart by the comparisons of the calling code.
\<close>

theorem resolve_outcomes:
  "(resolver hostname = Endpoints (a # as) \<longrightarrow>
      resolve resolver hostname = Ready (to_string a))
   \<and> (resolver hostname = Endpoints [] \<longrightarrow>
      resolve resolver hostname = Ready ''No results'')
   \<and> (resolver hostname = System_error what \<longrightarrow>
      resolve resolver hostname = Ready (''Error: '' @ what))
   \<and> (resolver hostname = Other_exception what \<longrightarrow>
      resolve resolver hostname = Rethrows what)
   \<and> to_string b \<noteq> ''No results''
   \<and> (\<forall>w. to_string b \<noteq> ''Error: '' @ w)
   \<and> (\<forall>w. ''No results'' \<noteq> ''Error: '' @ w)"
  using address_text [of b] by (simp add: resolve_def)

theorem resolve_outcomes_witness:
  "resolve test_net ''8.8.8.8'' = Ready ''8.8.8.8''
   \<and> resolve test_net [] = Ready ''No results''
   \<and> resolve test_net ''invalid.hostname.test''
       = Ready ''Error: resolve: Host not found (authoritative)''
   \<and> resolve exhausted ''www.example.com'' = Rethrows ''std::bad_alloc''
   \<and> to_string (V4 8 8 8 8) \<noteq> ''No results''"
  using
    resolve_outcomes [where resolver = test_net and hostname = "''8.8.8.8''"
      and a = "V4 8 8 8 8" and as = "[]" and what = "[]" and b = "V4 8 8 8 8"]
    resolve_outcomes [where resolver = test_net and hostname = "[]"
      and a = "V4 8 8 8 8" and as = "[]" and what = "[]" and b = "V4 8 8 8 8"]
    resolve_outcomes [where resolver = test_net and hostname = "''invalid.hostname.test''"
      and a = "V4 8 8 8 8" and as = "[]"
      and what = "''resolve: Host not found (authoritative)''" and b = "V4 8 8 8 8"]
    resolve_outcomes [where resolver = exhausted and hostname = "''www.example.com''"
      and a = "V4 8 8 8 8" and as = "[]" and what = "''std::bad_alloc''" and b = "V4 8 8 8 8"]
  by (simp add: test_net_def exhausted_def decimal.simps)

text \<open>
  Claim C9 as stated fails.  The numeric host string \<^verbatim>\<open>10.255.255.1\<close> resolves to the
  address it denotes, an address in private use; the handle yields its text, which is
  not the text of a routable address, nor \<open>No results\<close>, nor a string that begins with
  \<open>Error: \<close>.  And when the lookup raises \<^verbatim>\<open>std::bad_alloc\<close>, the exception leaves
  through the handle.
\<close>

theorem resolve_private_address:
  "resolve test_net ''10.255.255.1'' = Ready ''10.255.255.1''
   \<and> test_net ''10.255.255.1'' = Endpoints [V4 10 255 255 1]
   \<and> to_string (V4 10 255 255 1) = ''10.255.255.1''
   \<and> private_use (V4 10 255 255 1)
   \<and> ''10.255.255.1'' \<noteq> ''No results''
   \<and> take 7 ''10.255.255.1'' \<noteq> ''Error: ''
   \<and> resolve exhausted ''www.example.com'' = Rethrows ''std::bad_alloc''"
  by (simp add: resolve_def test_net_def exhausted_def decimal.simps)
text \<open>
  Claim C10 at a schedule of one caller and two workers.  Two jobs that throw are
  submitted in one batch; worker 1 and then worker 0 begin the assignment of line 68, so
  that both assignments to \<^verbatim>\<open>last_exception_\<close> are in progress at once: a data race,
  after which the content of the slot is not defined.  Both workers then finish, the
  caller drains the pool, submits a job that succeeds, and drains again.  Each of the
  two calls of \<^verbatim>\<open>WaitForAllJobs\<close> reads that slot; that they rethrow the exception
  stored last holds only if the assignments are taken not to have disturbed each other.
\<close>

theorem waits_read_slot_after_race:
  "run ([Call 0 (AddJobs [Job 1 (Some 7), Job 2 (Some 9)]), Step 0, Step 0, Step 0, Step 0,
         Step 0, Step 0]
         @ [Work 1, Work 1, Work 1, Work 1, Work 1, Work 1, Work 1, Work 1, Work 1, Work 1,
            Work 1, Work 1]
         @ [Work 0, Work 0, Work 0, Work 0, Work 0, Work 0, Work 0, Work 0, Work 0, Work 0,
            Work 0, Work 0]) (JobPool 2 1)
     = Some \<lparr>threads = [W_store 9, W_store 7], jobs = [], queue_mutex = None,
         condition = [], stop_flag = False, active_jobs = 2, paused = False,
         last_exception = None, callers = [C_idle],
         submitted = [Job 1 (Some 7), Job 2 (Some 9)],
         dequeued = [Job 1 (Some 7), Job 2 (Some 9)],
         started = [Job 1 (Some 7), Job 2 (Some 9)],
         finished = [Job 1 (Some 7), Job 2 (Some 9)], recorded = [], outcomes = []\<rparr>
   \<and> slot_race \<lparr>threads = [W_store 9, W_store 7], jobs = [], queue_mutex = None,
         condition = [], stop_flag = False, active_jobs = 2, paused = False,
         last_exception = None, callers = [C_idle],
         submitted = [Job 1 (Some 7), Job 2 (Some 9)],
         dequeued = [Job 1 (Some 7), Job 2 (Some 9)],
         started = [Job 1 (Some 7), Job 2 (Some 9)],
         finished = [Job 1 (Some 7), Job 2 (Some 9)], recorded = [], outcomes = []\<rparr>
   \<and> run ([Work 1, Work 1, Work 1, Work 0, Work 0, Work 0]
         @ [Call 0 WaitForAllJobs, Step 0, Step 0, Step 0, Step 0, Step 0]
         @ add_job 0 (Job 3 None) @ turn 0 (Job 3 None)
         @ [Call 0 WaitForAllJobs, Step 0, Step 0, Step 0, Step 0, Step 0])
       \<lparr>threads = [W_store 9, W_store 7], jobs = [], queue_mutex = None,
         condition = [], stop_flag = False, active_jobs = 2, paused = False,
         last_exception = None, callers = [C_idle],
         submitted = [Job 1 (Some 7), Job 2 (Some 9)],
         dequeued = [Job 1 (Some 7), Job 2 (Some 9)],
         started = [Job 1 (Some 7), Job 2 (Some 9)],
         finished = [Job 1 (Some 7), Job 2 (Some 9)], recorded = [], outcomes = []\<rparr>
     = Some \<lparr>threads = [W_loop, W_loop], jobs = [], queue_mutex = None,
         condition = [], stop_flag = False, active_jobs = 0, paused = False,
         last_exception = Some 9, callers = [C_idle],
         submitted = [Job 1 (Some 7), Job 2 (Some 9), Job 3 None],
         dequeued = [Job 1 (Some 7), Job 2 (Some 9), Job 3 None],
         started = [Job 1 (Some 7), Job 2 (Some 9), Job 3 None],
         finished = [Job 1 (Some 7), Job 2 (Some 9), Job 3 None], recorded = [7, 9],
         outcomes = [(0, Raised 9), (0, Raised 9)]\<rparr>"
  by (simp add: sched_defs replicate_2)

end
